theory Spec2Isabelle
  imports Complex_Main "HOL-Library.AList" "HOL-Library.Char_ord" "HOL-Library.List_Lexorder"
begin

section \<open>Python strings\<close>

text \<open>
  A Python \<open>str\<close> is modelled as a \<^typ>\<open>string\<close>; a \<^typ>\<open>char\<close> stands for the code point
  of the same number, so the model covers text whose code points are below 256.

  \<open>str.strip()\<close> removes leading and trailing whitespace. Below 256 the characters for
  which \<open>str.isspace()\<close> holds are 9 to 13, 28 to 32, 133 and 160.
\<close>

definition isspace :: "char \<Rightarrow> bool" where
  "isspace c = (let n = (of_char c :: nat) in
     (9 \<le> n \<and> n \<le> 13) \<or> (28 \<le> n \<and> n \<le> 32) \<or> n = 133 \<or> n = 160)"

definition strip :: "string \<Rightarrow> string" where
  "strip s = rev (dropWhile isspace (rev (dropWhile isspace s)))"

text \<open>\<open>s.split(sep)\<close> for a one-character separator: never an empty list.\<close>

fun split_on :: "char \<Rightarrow> string \<Rightarrow> string list" where
  "split_on sep [] = [[]]"
| "split_on sep (x # xs) =
     (if x = sep then [] # split_on sep xs
      else (case split_on sep xs of [] \<Rightarrow> [[x]] | y # ys \<Rightarrow> (x # y) # ys))"

text \<open>\<open>s.split(sep, maxsplit)\<close>: at most \<open>maxsplit\<close> cuts, the rest is left whole.\<close>

fun split_max :: "char \<Rightarrow> nat \<Rightarrow> string \<Rightarrow> string list" where
  "split_max sep 0 s = [s]"
| "split_max sep (Suc n) [] = [[]]"
| "split_max sep (Suc n) (x # xs) =
     (if x = sep then [] # split_max sep n xs
      else (case split_max sep (Suc n) xs of [] \<Rightarrow> [[x]] | y # ys \<Rightarrow> (x # y) # ys))"

text \<open>
  \<open>str.upper()\<close>. Only the ASCII letters are mapped: no other character below 256 has an
  upper case that is an ASCII letter, and the source only compares the result with
  \<open>'A'\<close> and \<open>'B'\<close>.
\<close>

definition upper_char :: "char \<Rightarrow> char" where
  "upper_char c = (case map_of (zip ''abcdefghijklmnopqrstuvwxyz'' ''ABCDEFGHIJKLMNOPQRSTUVWXYZ'') c of
       Some u \<Rightarrow> u
     | None \<Rightarrow> c)"

definition upper :: "string \<Rightarrow> string" where
  "upper s = map upper_char s"

text \<open>\<open>str.lower()\<close>, on the ASCII letters likewise.\<close>

definition lower_char :: "char \<Rightarrow> char" where
  "lower_char c = (case map_of (zip ''ABCDEFGHIJKLMNOPQRSTUVWXYZ'' ''abcdefghijklmnopqrstuvwxyz'') c of
       Some l \<Rightarrow> l
     | None \<Rightarrow> c)"

section \<open>Python integers\<close>

text \<open>
  \<open>int\<close> and \<open>float\<close> drop whitespace around the number, but not the same whitespace
  as \<open>str.strip()\<close>: the separators 28 to 31 are kept, and a string that holds one is
  rejected. Below 256 the characters dropped are 9 to 13, 32, 133 and 160.
\<close>

definition isspace_num :: "char \<Rightarrow> bool" where
  "isspace_num c = (let n = (of_char c :: nat) in
     (9 \<le> n \<and> n \<le> 13) \<or> n = 32 \<or> n = 133 \<or> n = 160)"

definition strip_num :: "string \<Rightarrow> string" where
  "strip_num s = rev (dropWhile isspace_num (rev (dropWhile isspace_num s)))"

text \<open>
  \<open>int(s)\<close> in base 10: surrounding whitespace is dropped, then an optional sign and a
  run of digits in which single underscores may separate digits. Anything else raises
  \<open>ValueError\<close>, here \<^const>\<open>None\<close>. (CPython's limit on the number of digits of
  such a string is not modelled.)
\<close>

definition isdigit :: "char \<Rightarrow> bool" where
  "isdigit c = (let n = (of_char c :: nat) in 48 \<le> n \<and> n \<le> 57)"

definition digit_val :: "char \<Rightarrow> int" where
  "digit_val c = of_char c - 48"

fun digitpart :: "string \<Rightarrow> int list option" where
  "digitpart [] = None"
| "digitpart [c] = (if isdigit c then Some [digit_val c] else None)"
| "digitpart (c # d # cs) =
     (if isdigit c
      then (case (if d = CHR ''_'' then digitpart cs else digitpart (d # cs)) of
              None \<Rightarrow> None
            | Some ds \<Rightarrow> Some (digit_val c # ds))
      else None)"

definition digits_val :: "int list \<Rightarrow> int" where
  "digits_val ds = foldl (\<lambda>acc d. 10 * acc + d) 0 ds"

definition split_sign :: "string \<Rightarrow> bool \<times> string" where
  "split_sign s = (case s of
       [] \<Rightarrow> (False, [])
     | c # cs \<Rightarrow> if c = CHR ''-'' then (True, cs)
                else if c = CHR ''+'' then (False, cs) else (False, s))"

definition py_int :: "string \<Rightarrow> int option" where
  "py_int s = (case split_sign (strip_num s) of (neg, body) \<Rightarrow>
     (case digitpart body of
        None \<Rightarrow> None
      | Some ds \<Rightarrow> Some (if neg then - digits_val ds else digits_val ds)))"

text \<open>\<open>str(n)\<close> of an integer, as an f-string prints it.\<close>

definition digit_char :: "int \<Rightarrow> char" where
  "digit_char d = ''0123456789'' ! nat d"

function show_nat :: "int \<Rightarrow> string" where
  "show_nat n = (if n < 10 then [digit_char n] else show_nat (n div 10) @ [digit_char (n mod 10)])"
  by pat_completeness auto
termination
  by (relation "measure nat") auto

declare show_nat.simps [simp del]

definition show_int :: "int \<Rightarrow> string" where
  "show_int i = (if i < 0 then CHR ''-'' # show_nat (- i) else show_nat i)"

section \<open>Python floats\<close>

text \<open>
  A Python \<open>float\<close> is an IEEE 754 binary64 number. A finite one is given by its exact
  rational value (\<open>Fin 0\<close> is \<open>0.0\<close>), and negative zero, the infinities and
  not-a-number are values of their own. Every operation computes the exact rational
  result and rounds it to the nearest binary64 number, ties to the even significand.
\<close>

datatype pyfloat = Fin rat | NegZero | PInf | NInf | NaN

text \<open>\<open>b\<close> to an integer power, as a rational.\<close>

definition bpow :: "int \<Rightarrow> int \<Rightarrow> rat" where
  "bpow b e = (if 0 \<le> e then of_int b ^ nat e else 1 / of_int b ^ nat (- e))"

text \<open>The number of digits of \<open>n\<close> in base \<open>b\<close> (0 for 0).\<close>

function ndigits :: "int \<Rightarrow> int \<Rightarrow> int" where
  "ndigits b n = (if n \<le> 0 \<or> b < 2 then 0 else 1 + ndigits b (n div b))"
  by pat_completeness auto
termination
  by (relation "measure (\<lambda>(b, n). nat n)") (auto intro: int_div_less_self)

declare ndigits.simps [simp del]

text \<open>\<open>floor_log b q\<close> is the integer \<open>t\<close> with \<open>b^t \<le> q < b^(t+1)\<close>, for \<open>q > 0\<close>.\<close>

definition floor_log :: "int \<Rightarrow> rat \<Rightarrow> int" where
  "floor_log b q = (if 1 \<le> q then ndigits b \<lfloor>q\<rfloor> - 1 else - ndigits b (\<lceil>1 / q\<rceil> - 1))"

definition round_half_even :: "rat \<Rightarrow> int" where
  "round_half_even x = (let f = \<lfloor>x\<rfloor>; r = x - of_int f in
     if r < 1 / 2 then f
     else if 1 / 2 < r then f + 1
     else if even f then f else f + 1)"

text \<open>
  Rounding a nonzero rational to binary64: 53 significant bits, the exponent of the
  last place no lower than \<open>-1074\<close> (subnormal numbers), overflow to an infinity and
  underflow to a zero of the same sign.
\<close>

definition round_double :: "rat \<Rightarrow> pyfloat" where
  "round_double q = (let a = \<bar>q\<bar>;
       e = max (floor_log 2 a) (- 1022);
       u = bpow 2 (e - 52);
       r = of_int (round_half_even (a / u)) * u
     in if bpow 2 1024 \<le> r then (if q < 0 then NInf else PInf)
        else if r = 0 then (if q < 0 then NegZero else Fin 0)
        else Fin (if q < 0 then - r else r))"

text \<open>\<open>x + y\<close>\<close>

fun fadd :: "pyfloat \<Rightarrow> pyfloat \<Rightarrow> pyfloat" where
  "fadd NaN _ = NaN"
| "fadd _ NaN = NaN"
| "fadd PInf NInf = NaN"
| "fadd NInf PInf = NaN"
| "fadd PInf _ = PInf"
| "fadd _ PInf = PInf"
| "fadd NInf _ = NInf"
| "fadd _ NInf = NInf"
| "fadd NegZero y = (case y of NegZero \<Rightarrow> NegZero | _ \<Rightarrow> y)"
| "fadd (Fin a) NegZero = Fin a"
| "fadd (Fin a) (Fin b) = (if a + b = 0 then Fin 0 else round_double (a + b))"

text \<open>\<open>x * y\<close>\<close>

definition is_neg :: "pyfloat \<Rightarrow> bool" where
  "is_neg x = (case x of Fin a \<Rightarrow> a < 0 | NegZero \<Rightarrow> True | NInf \<Rightarrow> True | _ \<Rightarrow> False)"

definition is_zero :: "pyfloat \<Rightarrow> bool" where
  "is_zero x = (x = Fin 0 \<or> x = NegZero)"

definition is_inf :: "pyfloat \<Rightarrow> bool" where
  "is_inf x = (x = PInf \<or> x = NInf)"

definition fmul :: "pyfloat \<Rightarrow> pyfloat \<Rightarrow> pyfloat" where
  "fmul x y =
     (if x = NaN \<or> y = NaN then NaN
      else if (is_inf x \<and> is_zero y) \<or> (is_zero x \<and> is_inf y) then NaN
      else if is_inf x \<or> is_inf y then (if is_neg x \<noteq> is_neg y then NInf else PInf)
      else if is_zero x \<or> is_zero y then (if is_neg x \<noteq> is_neg y then NegZero else Fin 0)
      else (case (x, y) of (Fin a, Fin b) \<Rightarrow> round_double (a * b) | _ \<Rightarrow> NaN))"

text \<open>\<open>x != y\<close>: not-a-number differs from everything, the two zeros are equal.\<close>

definition fne :: "pyfloat \<Rightarrow> pyfloat \<Rightarrow> bool" where
  "fne x y = (if x = NaN \<or> y = NaN then True
              else if is_zero x \<and> is_zero y then False else x \<noteq> y)"

text \<open>
  \<open>float(s)\<close>: surrounding whitespace is dropped; then an optional sign and either
  \<open>inf\<close>, \<open>infinity\<close> or \<open>nan\<close> in any letter case, or a decimal number with an optional
  fraction and an optional exponent. The value is the decimal number rounded to binary64.
  Anything else raises \<open>ValueError\<close>, here \<^const>\<open>None\<close>.
\<close>

definition lower :: "string \<Rightarrow> string" where
  "lower s = map lower_char s"

definition split_first :: "char \<Rightarrow> string \<Rightarrow> string \<times> string option" where
  "split_first sep s = (case split_max sep (Suc 0) s of [a, b] \<Rightarrow> (a, Some b) | _ \<Rightarrow> (s, None))"

definition parse_exponent :: "string option \<Rightarrow> int option" where
  "parse_exponent ex = (case ex of
       None \<Rightarrow> Some 0
     | Some e \<Rightarrow> (case split_sign e of (neg, body) \<Rightarrow>
         (case digitpart body of
            None \<Rightarrow> None
          | Some ds \<Rightarrow> Some (if neg then - digits_val ds else digits_val ds))))"

definition parse_number :: "string \<Rightarrow> rat option" where
  "parse_number s = (case split_first CHR ''e'' s of (mant, ex) \<Rightarrow>
     (case split_first CHR ''.'' mant of (ip, fp) \<Rightarrow>
       (let idig = (if ip = [] \<and> fp \<noteq> None then Some [] else digitpart ip);
            fdig = (case fp of
                      None \<Rightarrow> Some []
                    | Some f \<Rightarrow> if f = [] \<and> ip \<noteq> [] then Some [] else digitpart f)
        in case (idig, fdig, parse_exponent ex) of
             (Some i, Some f, Some x) \<Rightarrow>
               Some (of_int (digits_val (i @ f)) * bpow 10 (x - int (length f)))
           | _ \<Rightarrow> None)))"

definition py_float :: "string \<Rightarrow> pyfloat option" where
  "py_float s = (case split_sign (lower (strip_num s)) of (neg, body) \<Rightarrow>
     if body = ''inf'' \<or> body = ''infinity'' then Some (if neg then NInf else PInf)
     else if body = ''nan'' then Some NaN
     else (case parse_number body of
             None \<Rightarrow> None
           | Some q \<Rightarrow> Some (if q = 0 then (if neg then NegZero else Fin 0)
                             else round_double (if neg then - q else q))))"

text \<open>
  \<open>repr(x)\<close>, which is what an f-string prints for a float: the shortest string of
  decimal digits that rounds back to \<open>x\<close> (and of those the nearest to \<open>x\<close>), written
  in positional notation when the decimal point lies within \<open>-4 < decpt \<le> 16\<close> and
  with an exponent otherwise.
\<close>

definition roundtrips :: "rat \<Rightarrow> int \<Rightarrow> int \<Rightarrow> bool" where
  "roundtrips a d e = (round_double (of_int d * bpow 10 e) = Fin a)"

definition try_digits :: "rat \<Rightarrow> nat \<Rightarrow> (int \<times> int) option" where
  "try_digits a n = (let e = floor_log 10 a + 1 - int n;
       x = a / bpow 10 e;
       lo = \<lfloor>x\<rfloor>;
       hi = lo + 1;
       lo_nearer = (x - of_int lo < of_int hi - x \<or> (x - of_int lo = of_int hi - x \<and> even lo))
     in if roundtrips a lo e \<and> (lo_nearer \<or> \<not> roundtrips a hi e) then Some (lo, e)
        else if roundtrips a hi e then Some (hi, e)
        else None)"

fun first_digits :: "rat \<Rightarrow> nat list \<Rightarrow> (int \<times> int) option" where
  "first_digits a [] = None"
| "first_digits a (n # ns) =
     (case try_digits a n of Some r \<Rightarrow> Some r | None \<Rightarrow> first_digits a ns)"

definition strip_zeros :: "string \<Rightarrow> string" where
  "strip_zeros s = rev (dropWhile (\<lambda>c. c = CHR ''0'') (rev s))"

text \<open>
  The digits without trailing zeros, and \<open>decpt\<close>: the value printed is
  \<open>0.digits * 10^decpt\<close>. Seventeen digits always suffice for a binary64 number.
\<close>

definition repr_digits :: "rat \<Rightarrow> string \<times> int" where
  "repr_digits a = (case first_digits a [1, 2, 3, 4, 5, 6, 7, 8, 9, 10, 11, 12, 13, 14, 15, 16, 17] of
       Some (d, e) \<Rightarrow> (strip_zeros (show_nat d), int (length (show_nat d)) + e)
     | None \<Rightarrow> (let e = floor_log 10 a - 16; d = round_half_even (a / bpow 10 e)
               in (strip_zeros (show_nat d), int (length (show_nat d)) + e)))"

definition format_repr :: "string \<Rightarrow> int \<Rightarrow> string" where
  "format_repr ds decpt = (let n = int (length ds) in
     if - 4 < decpt \<and> decpt \<le> 16 then
       (if decpt \<le> 0 then ''0.'' @ replicate (nat (- decpt)) (CHR ''0'') @ ds
        else if n \<le> decpt then ds @ replicate (nat (decpt - n)) (CHR ''0'') @ ''.0''
        else take (nat decpt) ds @ ''.'' @ drop (nat decpt) ds)
     else (let e = decpt - 1; es = show_nat \<bar>e\<bar> in
       take 1 ds @ (if 1 < n then ''.'' @ drop 1 ds else [])
         @ ''e'' @ (if e < 0 then ''-'' else ''+'') @ (if length es < 2 then ''0'' @ es else es)))"

definition float_repr :: "pyfloat \<Rightarrow> string" where
  "float_repr x = (case x of
       NaN \<Rightarrow> ''nan''
     | PInf \<Rightarrow> ''inf''
     | NInf \<Rightarrow> ''-inf''
     | NegZero \<Rightarrow> ''-0.0''
     | Fin q \<Rightarrow>
         if q = 0 then ''0.0''
         else (case repr_digits \<bar>q\<bar> of (ds, decpt) \<Rightarrow>
                 (if q < 0 then ''-'' else []) @ format_repr ds decpt))"

section \<open>Errors\<close>

text \<open>
  Every failure of the two programs once they read their input is a Python \<open>ValueError\<close>
  that nothing catches: a string that \<open>int\<close> or \<open>float\<close> rejects, or a tuple
  assignment whose right-hand side has the wrong number of items. The process stops there.
\<close>

datatype error = ValueError

section \<open>The Key Expander: \<open>MatMul/mapper.py\<close>\<close>

text \<open>
  \<open>MAX_I\<close> and \<open>MAX_K\<close> are the integers read from the environment before the loop
  starts (lines 5 and 6); they are parameters here.

  The two \<open>print\<close> calls (lines 21 and 24) write a line of the same shape
  \<open>f"{i},{k}\t{SRC},{j},{v}"\<close>.
\<close>

definition emit_line :: "int \<Rightarrow> int \<Rightarrow> string \<Rightarrow> int \<Rightarrow> pyfloat \<Rightarrow> string" where
  "emit_line i k src j v =
     show_int i @ '','' @ show_int k @ [CHR 0x09] @ src @ '','' @ show_int j @ '','' @ float_repr v"

text \<open>
  The body of the loop (lines 9 to 24) for one line of input: the lines it prints, or the
  error that ends the run. Nothing is printed before the three conversions of line 17
  have succeeded.
\<close>

definition mapper_line :: "int \<Rightarrow> int \<Rightarrow> string \<Rightarrow> error + string list" where
  "mapper_line MAX_I MAX_K raw = (let line = strip raw in
     if line = [] \<or> hd line = CHR ''#'' then Inr []
     else (case split_on (CHR '','') line of
        [name, r_str, c_str, v_str] \<Rightarrow>
          (case py_int r_str of None \<Rightarrow> Inl ValueError | Some r \<Rightarrow>
          (case py_int c_str of None \<Rightarrow> Inl ValueError | Some c \<Rightarrow>
          (case py_float v_str of None \<Rightarrow> Inl ValueError | Some v \<Rightarrow>
             Inr (if upper name = ''A''
                  then map (\<lambda>k_idx. emit_line r k_idx ''A'' c v) [0..MAX_K - 1]
                  else if upper name = ''B''
                  then map (\<lambda>i_idx. emit_line i_idx c ''B'' r v) [0..MAX_I - 1]
                  else []))))
      | _ \<Rightarrow> Inr []))"

text \<open>The loop over standard input: everything printed, and the error if the run died.\<close>

fun mapper :: "int \<Rightarrow> int \<Rightarrow> string list \<Rightarrow> string list \<times> error option" where
  "mapper MAX_I MAX_K [] = ([], None)"
| "mapper MAX_I MAX_K (raw # rest) =
     (case mapper_line MAX_I MAX_K raw of
        Inl e \<Rightarrow> ([], Some e)
      | Inr out \<Rightarrow> (case mapper MAX_I MAX_K rest of (outs, r) \<Rightarrow> (out @ outs, r)))"

section \<open>The Grouped Joiner: \<open>MatMul/reducer.py\<close>\<close>

text \<open>
  \<open>Avals\<close> and \<open>Bvals\<close> are \<open>defaultdict(float)\<close>: a dictionary iterates in the order
  in which its keys were first inserted, so each is an association list in that order.
  \<open>d[j] += v\<close> reads \<open>d[j]\<close> (\<open>0.0\<close> when \<open>j\<close> is missing), adds \<open>v\<close> and stores the
  sum under \<open>j\<close>: in place when the key is there, at the end when it is new.
\<close>

type_synonym dict = "(int \<times> pyfloat) list"

definition getitem :: "dict \<Rightarrow> int \<Rightarrow> pyfloat" where
  "getitem d j = (case map_of d j of None \<Rightarrow> Fin 0 | Some a \<Rightarrow> a)"

definition add_item :: "dict \<Rightarrow> int \<Rightarrow> pyfloat \<Rightarrow> dict" where
  "add_item d j v = AList.update j (fadd (getitem d j) v) d"

text \<open>Lines 12 to 15 of \<open>flush\<close>: the loop over \<open>A.items()\<close>.\<close>

definition dot_total :: "dict \<Rightarrow> dict \<Rightarrow> pyfloat" where
  "dot_total A B = foldl (\<lambda>total (j, a).
       case map_of B j of None \<Rightarrow> total | Some b \<Rightarrow> fadd total (fmul a b)) (Fin 0) A"

text \<open>
  \<open>flush(key, A, B)\<close>: the lines it prints. \<open>not key\<close> holds for \<open>None\<close> only (a pair of
  integers is a non-empty tuple, hence true, whatever the integers).
\<close>

definition flush :: "(int \<times> int) option \<Rightarrow> dict \<Rightarrow> dict \<Rightarrow> string list" where
  "flush key A B = (case key of
       None \<Rightarrow> []
     | Some (i, k) \<Rightarrow>
         (let total = dot_total A B in
          if fne total (Fin 0) then [show_int i @ '' '' @ show_int k @ '' '' @ float_repr total]
          else []))"

text \<open>
  Lines 21 to 27: a line of input is skipped when it is blank, and otherwise gives a key
  \<open>(i, k)\<close> and a fragment \<open>(src, j, v)\<close> or raises.
\<close>

type_synonym fragment = "string \<times> int \<times> pyfloat"

definition parse_line :: "string \<Rightarrow> error + ((int \<times> int) \<times> fragment) option" where
  "parse_line raw = (let line = strip raw in
     if line = [] then Inr None
     else (case split_max (CHR 0x09) (Suc 0) line of
        [key_str, payload] \<Rightarrow>
          (case map py_int (split_on (CHR '','') key_str) of
             [Some i, Some k] \<Rightarrow>
               (case split_max (CHR '','') (Suc (Suc 0)) payload of
                  [src, j_str, v_str] \<Rightarrow>
                    (case py_int j_str of None \<Rightarrow> Inl ValueError | Some j \<Rightarrow>
                    (case py_float v_str of None \<Rightarrow> Inl ValueError | Some v \<Rightarrow>
                       Inr (Some ((i, k), (src, j, v)))))
                | _ \<Rightarrow> Inl ValueError)
           | _ \<Rightarrow> Inl ValueError)
      | _ \<Rightarrow> Inl ValueError))"

text \<open>The module-level variables of lines 5 to 7.\<close>

record state =
  current_key :: "(int \<times> int) option"
  Avals :: dict
  Bvals :: dict

definition init :: state where
  "init = \<lparr>current_key = None, Avals = [], Bvals = []\<rparr>"

text \<open>Lines 29 to 37 for one parsed line: what is printed, and the new state.\<close>

definition step :: "state \<Rightarrow> (int \<times> int) \<times> fragment \<Rightarrow> string list \<times> state" where
  "step s p = (case p of ((i, k), (src, j, v)) \<Rightarrow>
     (let (out, s1) =
        (if current_key s \<noteq> Some (i, k)
         then (flush (current_key s) (Avals s) (Bvals s),
               \<lparr>current_key = Some (i, k), Avals = [], Bvals = []\<rparr>)
         else ([], s))
      in (out, if src = ''A'' then s1\<lparr>Avals := add_item (Avals s1) j v\<rparr>
               else s1\<lparr>Bvals := add_item (Bvals s1) j v\<rparr>)))"

text \<open>The loop of lines 20 to 37: what it prints, and the state it ends in or the error.\<close>

fun reducer_loop :: "state \<Rightarrow> string list \<Rightarrow> string list \<times> (error + state)" where
  "reducer_loop s [] = ([], Inr s)"
| "reducer_loop s (raw # rest) =
     (case parse_line raw of
        Inl e \<Rightarrow> ([], Inl e)
      | Inr None \<Rightarrow> reducer_loop s rest
      | Inr (Some p) \<Rightarrow>
          (case step s p of (out, s') \<Rightarrow>
             (case reducer_loop s' rest of (outs, r) \<Rightarrow> (out @ outs, r))))"

text \<open>The whole program: the loop, then the last \<open>flush\<close> of line 39 if the loop ended.\<close>

definition reducer :: "string list \<Rightarrow> string list \<times> error option" where
  "reducer lines = (case reducer_loop init lines of
       (out, Inl e) \<Rightarrow> (out, Some e)
     | (out, Inr s) \<Rightarrow> (out @ flush (current_key s) (Avals s) (Bvals s), None))"

section \<open>The specification's view of the Grouped Joiner\<close>

text \<open>
  The pairs that the lines of an input carry: blank lines carry none. (Only used for
  inputs in which every line parses.)
\<close>

definition parsed :: "string list \<Rightarrow> ((int \<times> int) \<times> fragment) list" where
  "parsed lines = List.map_filter
     (\<lambda>raw. case parse_line raw of Inr (Some p) \<Rightarrow> Some p | _ \<Rightarrow> None) lines"

text \<open>A stream of pairs cut into its maximal runs of equal keys, in order.\<close>

function runs :: "('k \<times> 'f) list \<Rightarrow> ('k \<times> 'f list) list" where
  "runs [] = []"
| "runs ((k, f) # ps) =
     (k, f # map snd (takeWhile (\<lambda>p. fst p = k) ps)) # runs (dropWhile (\<lambda>p. fst p = k) ps)"
  by pat_completeness auto
termination
  by (relation "measure length") (auto simp: length_dropWhile_le less_Suc_eq_le)

text \<open>
  The fragments of one source summed per inner index, and the pure function of a group
  that the specification describes: \<open>flush\<close> of the key, the summed fragments of source
  \<open>A\<close> and the summed fragments of source \<open>B\<close>.
\<close>

definition sum_fragments :: "fragment list \<Rightarrow> dict" where
  "sum_fragments fs = foldl (\<lambda>d f. case f of (src, j, v) \<Rightarrow> add_item d j v) [] fs"

definition group_output :: "(int \<times> int) \<times> fragment list \<Rightarrow> string list" where
  "group_output g = (case g of (key, fs) \<Rightarrow>
     flush (Some key) (sum_fragments (filter (\<lambda>f. fst f = ''A'') fs))
                      (sum_fragments (filter (\<lambda>f. fst f = ''B'') fs)))"

definition fold_groups :: "((int \<times> int) \<times> fragment) list \<Rightarrow> string list" where
  "fold_groups ps = concat (map group_output (runs ps))"




text \<open>
  For the proofs: the loop over pairs that are already parsed, the accumulation of a list
  of fragments into a dictionary, what the loop prints for one run of equal keys (every
  fragment whose source is not \<open>'A'\<close> is added to \<open>Bvals\<close>), and the state the loop is
  in at the end of a run.
\<close>

fun pairs_loop :: "state \<Rightarrow> ((int \<times> int) \<times> fragment) list \<Rightarrow> string list \<times> state" where
  "pairs_loop s [] = ([], s)"
| "pairs_loop s (p # ps) =
     (case step s p of (out, s') \<Rightarrow>
        (case pairs_loop s' ps of (outs, s'') \<Rightarrow> (out @ outs, s'')))"

definition acc_frags :: "dict \<Rightarrow> fragment list \<Rightarrow> dict" where
  "acc_frags d fs = foldl (\<lambda>d f. case f of (src, j, v) \<Rightarrow> add_item d j v) d fs"

definition run_state :: "(int \<times> int) \<times> fragment list \<Rightarrow> state" where
  "run_state g = (case g of (key, fs) \<Rightarrow>
     \<lparr>current_key = Some key,
      Avals = acc_frags [] (filter (\<lambda>f. fst f = ''A'') fs),
      Bvals = acc_frags [] (filter (\<lambda>f. fst f \<noteq> ''A'') fs)\<rparr>)"

text \<open>A state with further fragments of its key accumulated.\<close>

definition ext :: "state \<Rightarrow> fragment list \<Rightarrow> state" where
  "ext s fs = s\<lparr>Avals := acc_frags (Avals s) (filter (\<lambda>f. fst f = ''A'') fs),
               Bvals := acc_frags (Bvals s) (filter (\<lambda>f. fst f \<noteq> ''A'') fs)\<rparr>"

definition final_flush :: "state \<Rightarrow> string list" where
  "final_flush s = flush (current_key s) (Avals s) (Bvals s)"

definition group_flush :: "(int \<times> int) \<times> fragment list \<Rightarrow> string list" where
  "group_flush g = final_flush (run_state g)"

text \<open>
  Lines 29 to 33 alone, for a pair whose key is \<open>key\<close>: when the key is not the active
  one, the group before it is flushed, both accumulators are emptied and the key becomes
  the active one; when it is, nothing is printed and nothing changes. And the
  accumulator that lines 34 to 37 choose for a source tag.
\<close>

definition activate :: "state \<Rightarrow> int \<times> int \<Rightarrow> string list \<times> state" where
  "activate s key =
     (if current_key s \<noteq> Some key
      then (flush (current_key s) (Avals s) (Bvals s),
            \<lparr>current_key = Some key, Avals = [], Bvals = []\<rparr>)
      else ([], s))"


text \<open>
  A value is a binary64 number when rounding leaves it as it is. Every value that
  \<open>float\<close> returns is one.
\<close>

definition is_double :: "pyfloat \<Rightarrow> bool" where
  "is_double v = (case v of Fin q \<Rightarrow> q = 0 \<or> round_double q = Fin q | _ \<Rightarrow> True)"

text \<open>
  The parts of an intermediate line \<open>I,K<TAB>SRC,J,VALUE\<close>, and the lines that the
  specification calls malformed: no tab, a payload that is not three comma-separated
  fields, a key that is not two integers, an inner index that is not an integer, or a
  value that is not a float.
\<close>

definition key_part :: "string \<Rightarrow> string" where
  "key_part line = takeWhile (\<lambda>c. c \<noteq> CHR 0x09) line"

definition payload_part :: "string \<Rightarrow> string" where
  "payload_part line = tl (dropWhile (\<lambda>c. c \<noteq> CHR 0x09) line)"

definition key_ok :: "string \<Rightarrow> bool" where
  "key_ok key_str = (case map py_int (split_on (CHR '','') key_str) of
       [Some i, Some k] \<Rightarrow> True
     | _ \<Rightarrow> False)"

definition malformed :: "string \<Rightarrow> bool" where
  "malformed raw = (let line = strip raw; fields = split_on (CHR '','') (payload_part line) in
     CHR 0x09 \<notin> set line
     \<or> length fields \<noteq> 3
     \<or> \<not> key_ok (key_part line)
     \<or> py_int (fields ! 1) = None
     \<or> py_float (fields ! 2) = None)"

text \<open>
  The grouping stage between the two programs is not part of the repository. It is
  taken to be a stable sort of the lines by the text of their key: all lines of a key
  become contiguous, the keys come in the order of their text, and the lines of one key
  keep the order in which the Key Expander wrote them.
\<close>

definition shuffle :: "string list \<Rightarrow> string list" where
  "shuffle lines = sort_key key_part lines"

section \<open>Example inputs\<close>

text \<open>
  Two groups for the Grouped Joiner, with a blank line between them: key \<open>(0, 0)\<close> with
  one shared inner index, key \<open>(0, 1)\<close> with none.
\<close>

definition ex_lines :: "string list" where
  "ex_lines = [''0,0'' @ [CHR 0x09] @ ''A,0,2'', ''0,0'' @ [CHR 0x09] @ ''B,0,3'', [CHR 0x0A],
               ''0,1'' @ [CHR 0x09] @ ''A,0,2'', ''0,1'' @ [CHR 0x09] @ ''B,1,5'']"

text \<open>
  One group in which three fragments of \<open>A\<close> meet at inner index \<open>0\<close>, in two orders.
\<close>

definition frag_line :: "string \<Rightarrow> string" where
  "frag_line payload = ''0,0'' @ [CHR 0x09] @ payload"



text \<open>
  The end-to-end example of the specification: \<open>A = [[1, 2], [3, 4]]\<close> and
  \<open>B = [[5, 6], [7, 8]]\<close> as entries, with \<open>MAX_I = 2\<close> and \<open>MAX_K = 2\<close>.
\<close>

definition matrix_entries :: "string list" where
  "matrix_entries = [''A,0,0,1'', ''A,0,1,2'', ''A,1,0,3'', ''A,1,1,4'',
                     ''B,0,0,5'', ''B,0,1,6'', ''B,1,0,7'', ''B,1,1,8'']"

definition pair_line :: "string \<Rightarrow> string \<Rightarrow> string" where
  "pair_line key payload = key @ [CHR 0x09] @ payload"

definition expanded :: "string list" where
  "expanded =
     [pair_line ''0,0'' ''A,0,1.0'', pair_line ''0,1'' ''A,0,1.0'',
      pair_line ''0,0'' ''A,1,2.0'', pair_line ''0,1'' ''A,1,2.0'',
      pair_line ''1,0'' ''A,0,3.0'', pair_line ''1,1'' ''A,0,3.0'',
      pair_line ''1,0'' ''A,1,4.0'', pair_line ''1,1'' ''A,1,4.0'',
      pair_line ''0,0'' ''B,0,5.0'', pair_line ''1,0'' ''B,0,5.0'',
      pair_line ''0,1'' ''B,0,6.0'', pair_line ''1,1'' ''B,0,6.0'',
      pair_line ''0,0'' ''B,1,7.0'', pair_line ''1,0'' ''B,1,7.0'',
      pair_line ''0,1'' ''B,1,8.0'', pair_line ''1,1'' ''B,1,8.0'']"

definition grouped :: "string list" where
  "grouped =
     [pair_line ''0,0'' ''A,0,1.0'', pair_line ''0,0'' ''A,1,2.0'',
      pair_line ''0,0'' ''B,0,5.0'', pair_line ''0,0'' ''B,1,7.0'',
      pair_line ''0,1'' ''A,0,1.0'', pair_line ''0,1'' ''A,1,2.0'',
      pair_line ''0,1'' ''B,0,6.0'', pair_line ''0,1'' ''B,1,8.0'',
      pair_line ''1,0'' ''A,0,3.0'', pair_line ''1,0'' ''A,1,4.0'',
      pair_line ''1,0'' ''B,0,5.0'', pair_line ''1,0'' ''B,1,7.0'',
      pair_line ''1,1'' ''A,0,3.0'', pair_line ''1,1'' ''A,1,4.0'',
      pair_line ''1,1'' ''B,0,6.0'', pair_line ''1,1'' ''B,1,8.0'']"

section \<open>Evaluation on literals\<close>

lemma Let_weak_cong: "a = b \<Longrightarrow> Let a t = Let b t"
  by simp

lemma floor_numeral_div: "\<lfloor>(numeral a :: rat) / numeral b\<rfloor> = numeral a div numeral b"
  using floor_divide_of_int_eq [of "numeral a" "numeral b", where ?'a = rat] by simp

lemma ceiling_numeral_div: "\<lceil>(numeral a :: rat) / numeral b\<rceil> = - ((- numeral a) div numeral b)"
  using ceiling_divide_eq_div [of "numeral a" "numeral b", where ?'a = rat] by simp

lemma ndigits_numeral:
  "ndigits (numeral b) (numeral n) =
     (if numeral b < (2::int) then 0 else 1 + ndigits (numeral b) (numeral n div numeral b))"
  by (subst ndigits.simps) simp

lemma ndigits_0: "ndigits b 0 = 0"
  by (simp add: ndigits.simps)

lemma ndigits_1: "2 \<le> b \<Longrightarrow> ndigits b 1 = 1"
  by (subst ndigits.simps) (simp add: ndigits_0)

lemma show_nat_numeral:
  "show_nat (numeral n) =
     (if numeral n < (10::int) then [digit_char (numeral n)]
      else show_nat (numeral n div 10) @ [digit_char (numeral n mod 10)])"
  by (subst show_nat.simps) simp

lemma show_nat_0: "show_nat 0 = ''0''"
  by (subst show_nat.simps) (simp add: digit_char_def)

lemma show_nat_1: "show_nat 1 = ''1''"
  by (subst show_nat.simps) (simp add: digit_char_def)

lemmas float_eval = floor_numeral_div ceiling_numeral_div ndigits_numeral ndigits_0 ndigits_1
  round_double_def Let_def floor_log_def bpow_def round_half_even_def

lemmas str_eval = strip_def isspace_def strip_num_def isspace_num_def isdigit_def digit_val_def digits_val_def split_sign_def
  py_int_def show_int_def show_nat_numeral show_nat_0 show_nat_1 digit_char_def
  upper_def upper_char_def lower_def lower_char_def

lemmas pf_eval = py_float_def parse_number_def parse_exponent_def split_first_def

lemmas repr_eval = float_repr_def repr_digits_def try_digits_def roundtrips_def strip_zeros_def
  format_repr_def

lemmas run_eval = parse_line_def mapper_line_def emit_line_def step_def flush_def dot_total_def
  add_item_def getitem_def init_def reducer_def fne_def is_zero_def fmul_def is_inf_def is_neg_def

lemmas all_eval = str_eval pf_eval repr_eval float_eval run_eval

section \<open>Blank lines\<close>

lemma strip_empty_iff: "strip raw = [] \<longleftrightarrow> list_all isspace raw"
proof
  assume "strip raw = []"
  then have a: "\<forall>x\<in>set (dropWhile isspace raw). isspace x"
    by (simp add: strip_def dropWhile_eq_Nil_conv)
  have "dropWhile isspace raw = []"
  proof (rule ccontr)
    assume n: "dropWhile isspace raw \<noteq> []"
    then have "\<not> isspace (hd (dropWhile isspace raw))" by (rule hd_dropWhile)
    moreover from n have "hd (dropWhile isspace raw) \<in> set (dropWhile isspace raw)" by simp
    ultimately show False using a by blast
  qed
  then show "list_all isspace raw"
    by (induction raw) (auto split: if_splits)
next
  assume "list_all isspace raw"
  then have "dropWhile isspace raw = []"
    by (induction raw) auto
  then show "strip raw = []" by (simp add: strip_def del: dropWhile_eq_Nil_conv)
qed

lemma parse_line_blank: "strip raw = [] \<Longrightarrow> parse_line raw = Inr None"
  by (simp add: parse_line_def)

lemma reducer_loop_skip:
  "parse_line raw = Inr None \<Longrightarrow> reducer_loop s (pre @ raw # post) = reducer_loop s (pre @ post)"
  by (induction pre arbitrary: s) (auto split: sum.splits option.splits prod.splits)

text \<open>
  Claim C10. A line of the Grouped Joiner's input that is empty or holds only whitespace
  is skipped before any parsing: it is no failure, the loop goes on with the state it
  had (active key and both accumulators), and the run is the run without that line.
\<close>

theorem blank_line_skipped:
  assumes "list_all isspace raw"
  shows "parse_line raw = Inr None
       \<and> reducer_loop s (raw # rest) = reducer_loop s rest
       \<and> reducer (pre @ raw # post) = reducer (pre @ post)"
proof -
  from assms have p: "parse_line raw = Inr None"
    by (simp add: strip_empty_iff parse_line_blank)
  have "reducer_loop s (raw # rest) = reducer_loop s rest"
    using p by simp
  moreover have "reducer (pre @ raw # post) = reducer (pre @ post)"
    using p by (simp add: reducer_def reducer_loop_skip)
  ultimately show ?thesis using p by simp
qed

theorem blank_line_skipped_witness:
  "list_all isspace [CHR '' '', CHR 0x09, CHR 0x0A]
   \<and> parse_line [CHR '' '', CHR 0x09, CHR 0x0A] = Inr None
   \<and> reducer_loop init ([CHR '' '', CHR 0x09, CHR 0x0A] # []) = ([], Inr init)
   \<and> reducer ([] @ [CHR '' '', CHR 0x09, CHR 0x0A] # []) = ([], None)"
proof -
  have h: "list_all isspace [CHR '' '', CHR 0x09, CHR 0x0A]"
    by (simp add: isspace_def)
  show ?thesis
    using h blank_line_skipped [OF h, of init "[]" "[]" "[]"]
    by (simp add: reducer_def init_def flush_def)
qed

section \<open>Source tags\<close>

lemma map_of_add_item: "map_of (add_item d j v) j = Some (fadd (getitem d j) v)"
  by (simp add: add_item_def update_conv')

text \<open>
  Claim C9. A well-formed line whose source tag is any string other than exactly \<open>'A'\<close>
  (a lower-case \<open>'a'\<close>, an unknown tag) is added to the \<open>B\<close> accumulator at its inner
  index, after the flush and reset if its key is new; the fragment is never dropped.
\<close>

theorem other_source_goes_to_B:
  assumes "parse_line raw = Inr (Some ((i, k), (src, j, v)))" and "src \<noteq> ''A''"
  shows "step s ((i, k), (src, j, v)) =
           (if current_key s = Some (i, k)
            then ([], s\<lparr>Bvals := add_item (Bvals s) j v\<rparr>)
            else (flush (current_key s) (Avals s) (Bvals s),
                  \<lparr>current_key = Some (i, k), Avals = [], Bvals = add_item [] j v\<rparr>))
       \<and> map_of (Bvals (snd (step s ((i, k), (src, j, v))))) j
           = Some (fadd (getitem (if current_key s = Some (i, k) then Bvals s else []) j) v)
       \<and> reducer_loop s (raw # rest) =
           (fst (step s ((i, k), (src, j, v))) @ fst (reducer_loop (snd (step s ((i, k), (src, j, v)))) rest),
            snd (reducer_loop (snd (step s ((i, k), (src, j, v)))) rest))"
proof -
  have st: "step s ((i, k), (src, j, v)) =
           (if current_key s = Some (i, k)
            then ([], s\<lparr>Bvals := add_item (Bvals s) j v\<rparr>)
            else (flush (current_key s) (Avals s) (Bvals s),
                  \<lparr>current_key = Some (i, k), Avals = [], Bvals = add_item [] j v\<rparr>))"
    using assms(2) by (simp add: step_def)
  have "map_of (Bvals (snd (step s ((i, k), (src, j, v))))) j
           = Some (fadd (getitem (if current_key s = Some (i, k) then Bvals s else []) j) v)"
    by (simp add: st map_of_add_item)
  moreover have "reducer_loop s (raw # rest) =
           (fst (step s ((i, k), (src, j, v))) @ fst (reducer_loop (snd (step s ((i, k), (src, j, v)))) rest),
            snd (reducer_loop (snd (step s ((i, k), (src, j, v)))) rest))"
    using assms(1) by (simp add: split_beta)
  ultimately show ?thesis using st by blast
qed

lemma parse_lower_a:
  "parse_line (''0,0'' @ [CHR 0x09] @ ''a,7,1'') = Inr (Some ((0, 0), (''a'', 7, Fin 1)))"
  by (simp add: all_eval cong: Let_weak_cong)

theorem other_source_goes_to_B_witness:
  "parse_line (''0,0'' @ [CHR 0x09] @ ''a,7,1'') = Inr (Some ((0, 0), (''a'', 7, Fin 1)))
   \<and> ''a'' \<noteq> ''A''
   \<and> step init ((0, 0), (''a'', 7, Fin 1))
       = ([], \<lparr>current_key = Some (0, 0), Avals = [], Bvals = [(7, Fin 1)]\<rparr>)
   \<and> map_of (Bvals (snd (step init ((0, 0), (''a'', 7, Fin 1))))) 7 = Some (Fin 1)"
proof -
  have n: "''a'' \<noteq> ''A''" by simp
  have f: "round_double 1 = Fin 1" by (simp add: float_eval cong: Let_weak_cong)
  show ?thesis
    using other_source_goes_to_B [OF parse_lower_a n, of init "[]"] parse_lower_a
    by (simp add: init_def flush_def add_item_def getitem_def f)
qed

section \<open>The flush step\<close>









section \<open>The fan-out of the Key Expander\<close>








section \<open>The streaming loop and the fold over groups\<close>

lemma parsed_Nil: "parsed [] = []"
  by (simp add: parsed_def map_filter_simps)

lemma parsed_Cons:
  "parsed (l # ls) = (case parse_line l of Inr (Some p) \<Rightarrow> p # parsed ls | _ \<Rightarrow> parsed ls)"
  by (simp add: parsed_def map_filter_simps split: sum.splits option.splits)

lemma reducer_loop_parsed:
  "\<forall>l\<in>set ls. parse_line l \<noteq> Inl ValueError \<Longrightarrow>
   reducer_loop s ls = (fst (pairs_loop s (parsed ls)), Inr (snd (pairs_loop s (parsed ls))))"
proof (induction ls arbitrary: s)
  case Nil
  then show ?case by (simp add: parsed_Nil)
next
  case (Cons l ls)
  then have ih: "\<And>s. reducer_loop s ls = (fst (pairs_loop s (parsed ls)), Inr (snd (pairs_loop s (parsed ls))))"
    by simp
  from Cons.prems have ok: "parse_line l \<noteq> Inl ValueError" by simp
  show ?case
  proof (cases "parse_line l")
    case (Inl e)
    with ok show ?thesis by (cases e) simp
  next
    case (Inr r)
    then show ?thesis
      by (cases r) (simp_all add: parsed_Cons ih split_beta)
  qed
qed

lemma acc_frags_Nil: "acc_frags d [] = d"
  by (simp add: acc_frags_def)

lemma acc_frags_Cons: "acc_frags d ((src, j, v) # fs) = acc_frags (add_item d j v) fs"
  by (simp add: acc_frags_def)

lemma ext_Nil: "ext s [] = s"
  by (simp add: ext_def acc_frags_Nil)

lemma step_same:
  "current_key s = Some k \<Longrightarrow> step s (k, f) = ([], ext s [f])"
  by (cases f; cases k) (simp add: step_def ext_def acc_frags_Cons acc_frags_Nil)

lemma step_new:
  "current_key s \<noteq> Some k \<Longrightarrow> step s (k, f) = (final_flush s, run_state (k, [f]))"
  by (cases f; cases k) (simp add: step_def run_state_def final_flush_def acc_frags_Cons acc_frags_Nil)

lemma ext_ext: "ext (ext s [f]) fs = ext s (f # fs)"
  by (cases f) (simp add: ext_def acc_frags_Cons acc_frags_Nil)

lemma ext_key: "current_key (ext s fs) = current_key s"
  by (simp add: ext_def)

lemma ext_run_state: "ext (run_state (k, [f])) fs = run_state (k, f # fs)"
  by (cases f) (simp add: ext_def run_state_def acc_frags_Cons acc_frags_Nil)

lemma pairs_loop_takeWhile:
  "current_key s = Some k \<Longrightarrow>
   pairs_loop s ps = pairs_loop (ext s (map snd (takeWhile (\<lambda>p. fst p = k) ps)))
                                (dropWhile (\<lambda>p. fst p = k) ps)"
proof (induction ps arbitrary: s)
  case Nil
  then show ?case by (simp add: ext_Nil)
next
  case (Cons p ps)
  obtain k' f where p: "p = (k', f)" by (cases p)
  show ?case
  proof (cases "k' = k")
    case True
    have "pairs_loop s (p # ps) = pairs_loop (ext s [f]) ps"
      using Cons.prems True by (simp add: p step_same)
    also have "\<dots> = pairs_loop (ext (ext s [f]) (map snd (takeWhile (\<lambda>p. fst p = k) ps)))
                                (dropWhile (\<lambda>p. fst p = k) ps)"
      using Cons.prems by (intro Cons.IH) (simp add: ext_key)
    finally show ?thesis using True by (simp add: p ext_ext)
  next
    case False
    then show ?thesis by (simp add: p ext_Nil)
  qed
qed

lemma runs_not_Nil: "ps \<noteq> [] \<Longrightarrow> runs ps \<noteq> []"
  by (cases ps) auto

lemma pairs_loop_run:
  "pairs_loop (run_state (k, [f])) ps =
     (concat (map group_flush (butlast (runs ((k, f) # ps)))), run_state (last (runs ((k, f) # ps))))"
proof (induction "(k, f) # ps" arbitrary: k f ps rule: runs.induct)
  case (2 k f ps)
  let ?tw = "map snd (takeWhile (\<lambda>p. fst p = k) ps)"
  let ?dw = "dropWhile (\<lambda>p. fst p = k) ps"
  have key: "current_key (run_state (k, [f])) = Some k"
    by (simp add: run_state_def)
  have a: "pairs_loop (run_state (k, [f])) ps = pairs_loop (run_state (k, f # ?tw)) ?dw"
    using pairs_loop_takeWhile [OF key, of ps] by (simp add: ext_run_state)
  show ?case
  proof (cases ?dw)
    case Nil
    have r: "runs ((k, f) # ps) = [(k, f # ?tw)]"
      by (simp only: runs.simps Nil)
    from a have "pairs_loop (run_state (k, [f])) ps = ([], run_state (k, f # ?tw))"
      by (simp only: Nil pairs_loop.simps)
    then show ?thesis by (simp only: r) simp
  next
    case (Cons q rest)
    obtain k' f' where q: "q = (k', f')" by (cases q)
    have "\<not> fst (hd ?dw) = k"
      using Cons hd_dropWhile [of "\<lambda>p. fst p = k" ps] by simp
    then have ne: "k' \<noteq> k" using Cons q by simp
    have ih: "pairs_loop (run_state (k', [f'])) rest =
       (concat (map group_flush (butlast (runs ((k', f') # rest)))),
        run_state (last (runs ((k', f') # rest))))"
      using "2.hyps" [of k' f' rest] Cons q by simp
    have "current_key (run_state (k, f # ?tw)) \<noteq> Some k'"
      using ne by (simp add: run_state_def)
    then have "pairs_loop (run_state (k, f # ?tw)) ?dw =
       (group_flush (k, f # ?tw) @ concat (map group_flush (butlast (runs ((k', f') # rest)))),
        run_state (last (runs ((k', f') # rest))))"
      by (simp add: Cons q step_new ih group_flush_def)
    moreover have "runs ((k, f) # ps) = (k, f # ?tw) # runs ((k', f') # rest)"
      using Cons q by simp
    ultimately show ?thesis using a by simp
  qed
qed

lemma init_key: "current_key init \<noteq> Some k" and init_flush: "final_flush init = []"
  by (simp_all add: init_def final_flush_def flush_def)

lemma pairs_loop_init:
  "ps \<noteq> [] \<Longrightarrow>
   pairs_loop init ps = (concat (map group_flush (butlast (runs ps))), run_state (last (runs ps)))"
proof -
  assume "ps \<noteq> []"
  then obtain k f rest where ps: "ps = (k, f) # rest" by (cases ps) auto
  show ?thesis
    unfolding ps using pairs_loop_run [of k f rest]
    by (simp add: step_new [OF init_key] init_flush del: runs.simps)
qed

lemma pairs_loop_total:
  "fst (pairs_loop init ps) @ final_flush (snd (pairs_loop init ps)) = concat (map group_flush (runs ps))"
proof (cases ps)
  case Nil
  then show ?thesis by (simp add: init_flush)
next
  case (Cons p rest)
  then have ne: "ps \<noteq> []" by simp
  then have r: "runs ps \<noteq> []" by (rule runs_not_Nil)
  have "concat (map group_flush (runs ps))
        = concat (map group_flush (butlast (runs ps) @ [last (runs ps)]))"
    using r by simp
  then show ?thesis
    using pairs_loop_init [OF ne] by (simp add: group_flush_def del: append_butlast_last_id)
qed

lemma runs_fragments: "(k, fs) \<in> set (runs ps) \<Longrightarrow> set fs \<subseteq> snd ` set ps"
proof (induction ps arbitrary: k fs rule: runs.induct)
  case 1
  then show ?case by simp
next
  case (2 k' f ps)
  from "2.prems" consider "(k, fs) = (k', f # map snd (takeWhile (\<lambda>p. fst p = k') ps))"
    | "(k, fs) \<in> set (runs (dropWhile (\<lambda>p. fst p = k') ps))"
    by auto
  then show ?case
  proof cases
    case 1
    then show ?thesis by (auto dest: set_takeWhileD)
  next
    case 2
    then have "set fs \<subseteq> snd ` set (dropWhile (\<lambda>p. fst p = k') ps)" by (rule "2.IH")
    then show ?thesis by (auto dest: set_dropWhileD)
  qed
qed

lemma group_flush_output:
  "\<forall>f\<in>set fs. fst f = ''A'' \<or> fst f = ''B'' \<Longrightarrow> group_flush (k, fs) = group_output (k, fs)"
proof -
  assume t: "\<forall>f\<in>set fs. fst f = ''A'' \<or> fst f = ''B''"
  have "filter (\<lambda>f. fst f \<noteq> ''A'') fs = filter (\<lambda>f. fst f = ''B'') fs"
    by (rule filter_cong) (use t in auto)
  then show ?thesis
    by (simp add: group_flush_def group_output_def final_flush_def run_state_def
        sum_fragments_def acc_frags_def)
qed

lemma fold_groups_flush:
  assumes "\<forall>p\<in>set ps. fst (snd p) = ''A'' \<or> fst (snd p) = ''B''"
  shows "map group_flush (runs ps) = map group_output (runs ps)"
proof (rule map_cong [OF refl])
  fix g assume g: "g \<in> set (runs ps)"
  obtain k fs where kf: "g = (k, fs)" by (cases g)
  with g have "set fs \<subseteq> snd ` set ps" by (auto dest: runs_fragments)
  with assms have "\<forall>f\<in>set fs. fst f = ''A'' \<or> fst f = ''B''"
    by (fastforce simp: subset_iff image_iff)
  then show "group_flush g = group_output g" unfolding kf by (rule group_flush_output)
qed

lemma reducer_wellformed:
  "\<forall>l\<in>set lines. parse_line l \<noteq> Inl ValueError \<Longrightarrow>
   reducer lines = (concat (map group_flush (runs (parsed lines))), None)"
  using pairs_loop_total [of "parsed lines"]
  by (simp add: reducer_def reducer_loop_parsed final_flush_def)

text \<open>
  Claim C3. On an input whose lines all parse, with sources \<open>A\<close> and \<open>B\<close>, the output of
  the streaming Grouped Joiner is the output of the pure fold over groups: cut the
  stream of pairs into its maximal runs of equal keys, in order, and apply \<open>flush\<close> to
  the key of each run with the summed \<open>A\<close>-fragments and the summed \<open>B\<close>-fragments of
  that run. So the previous key is flushed at a key change, from the accumulators as
  they are before the reset, the last key is flushed once at the end of input, and an
  empty input prints nothing. (The equation does not need the runs to have different
  keys: in a grouped stream each key has one run.)
\<close>

theorem streaming_is_fold:
  assumes "\<forall>l\<in>set lines. parse_line l \<noteq> Inl ValueError"
    and "\<forall>p\<in>set (parsed lines). fst (snd p) = ''A'' \<or> fst (snd p) = ''B''"
  shows "reducer lines = (fold_groups (parsed lines), None) \<and> reducer [] = ([], None)"
proof -
  have "reducer lines = (fold_groups (parsed lines), None)"
    using reducer_wellformed [OF assms(1)] fold_groups_flush [OF assms(2)]
    by (simp add: fold_groups_def)
  moreover have "reducer [] = ([], None)"
    using reducer_wellformed [of "[]"] by (simp add: parsed_Nil)
  ultimately show ?thesis by simp
qed

lemma ex_parse:
  "parse_line (''0,0'' @ [CHR 0x09] @ ''A,0,2'') = Inr (Some ((0, 0), (''A'', 0, Fin 2)))"
  "parse_line (''0,0'' @ [CHR 0x09] @ ''B,0,3'') = Inr (Some ((0, 0), (''B'', 0, Fin 3)))"
  "parse_line [CHR 0x0A] = Inr None"
  "parse_line (''0,1'' @ [CHR 0x09] @ ''A,0,2'') = Inr (Some ((0, 1), (''A'', 0, Fin 2)))"
  "parse_line (''0,1'' @ [CHR 0x09] @ ''B,1,5'') = Inr (Some ((0, 1), (''B'', 1, Fin 5)))"
  by (simp_all add: all_eval cong: Let_weak_cong)

lemma ex_parsed:
  "parsed ex_lines = [((0, 0), (''A'', 0, Fin 2)), ((0, 0), (''B'', 0, Fin 3)),
                      ((0, 1), (''A'', 0, Fin 2)), ((0, 1), (''B'', 1, Fin 5))]"
  by (simp add: ex_lines_def parsed_Cons parsed_Nil ex_parse del: append.simps)

lemma ex_fold: "fold_groups (parsed ex_lines) = [''0 0 6.0'']"
  unfolding ex_parsed
  by (simp add: fold_groups_def group_output_def sum_fragments_def all_eval cong: Let_weak_cong)

theorem streaming_is_fold_witness:
  "list_all (\<lambda>l. parse_line l \<noteq> Inl ValueError) ex_lines
   \<and> list_all (\<lambda>p. fst (snd p) = ''A'' \<or> fst (snd p) = ''B'') (parsed ex_lines)
   \<and> reducer ex_lines = ([''0 0 6.0''], None)"
proof -
  have a: "\<forall>l\<in>set ex_lines. parse_line l \<noteq> Inl ValueError"
    by (simp add: ex_lines_def ex_parse del: append.simps)
  have b: "\<forall>p\<in>set (parsed ex_lines). fst (snd p) = ''A'' \<or> fst (snd p) = ''B''"
    by (simp add: ex_parsed)
  from streaming_is_fold [OF a b] a b show ?thesis
    by (simp add: ex_fold list_all_iff)
qed

section \<open>Rounding to a double\<close>

text \<open>
  The rounding lands on a double and leaves a double alone, so every value that
  \<open>float\<close>, a sum or a product returns is a double.
\<close>

lemma bpow_powi: "bpow b e = of_int b powi e"
  by (simp add: bpow_def power_int_def power_divide inverse_eq_divide)

lemma bpow2: "bpow 2 e = 2 powi e"
  using bpow_powi [of 2 e] by simp

lemma ndigits_bounds:
  "0 < n \<Longrightarrow> 1 \<le> ndigits 2 n \<and> 2 ^ nat (ndigits 2 n - 1) \<le> n \<and> n < 2 ^ nat (ndigits 2 n)"
proof (induction "2 :: int" n rule: ndigits.induct)
  case (1 n)
  show ?case
  proof (cases "n div 2 = 0")
    case True
    with "1.prems" have "n = 1" by presburger
    then show ?thesis by (simp add: ndigits.simps [of 2 1] ndigits.simps [of 2 0])
  next
    case False
    with "1.prems" have pos: "0 < n div 2" by presburger
    with "1.hyps" "1.prems" have ih: "1 \<le> ndigits 2 (n div 2)"
      "2 ^ nat (ndigits 2 (n div 2) - 1) \<le> n div 2" "n div 2 < 2 ^ nat (ndigits 2 (n div 2))"
      by simp_all
    let ?d = "ndigits 2 (n div 2)"
    have nd: "ndigits 2 n = 1 + ?d" using "1.prems" by (subst ndigits.simps) simp
    have e: "nat ?d = Suc (nat (?d - 1))" using ih(1) by simp
    have "(2::int) ^ nat ?d \<le> 2 * (n div 2)" using ih(2) by (simp add: e)
    also have "\<dots> \<le> n" by presburger
    finally have lo: "(2::int) ^ nat ?d \<le> n" .
    have "n < 2 * (n div 2 + 1)" by presburger
    also have "\<dots> \<le> 2 * 2 ^ nat ?d" using ih(3) by simp
    finally have hi: "n < 2 ^ Suc (nat ?d)" by simp
    have "nat (1 + ?d) = Suc (nat ?d)" using ih(1) by simp
    with lo hi ih(1) show ?thesis by (simp add: nd)
  qed
qed

lemma powi_nat: "0 \<le> t \<Longrightarrow> (2::rat) powi t = 2 ^ nat t"
  by (simp add: power_int_def)

lemma powi_neg: "0 \<le> s \<Longrightarrow> (2::rat) powi (- s) = 1 / 2 ^ nat s"
  by (cases "s = 0") (simp_all add: power_int_def power_divide inverse_eq_divide)

lemma floor_log_bounds:
  assumes "0 < x"
  shows "2 powi (floor_log 2 x) \<le> x \<and> x < 2 powi (floor_log 2 x + 1)"
proof (cases "1 \<le> x")
  case True
  let ?n = "\<lfloor>x\<rfloor>" and ?t = "ndigits 2 \<lfloor>x\<rfloor> - 1"
  from True have n: "0 < ?n" by simp
  from ndigits_bounds [OF n] have t: "0 \<le> ?t" and lo: "2 ^ nat ?t \<le> ?n"
    and hi: "?n < 2 ^ nat (?t + 1)" by simp_all
  have fl: "floor_log 2 x = ?t" using True by (simp add: floor_log_def)
  have "(2::rat) ^ nat ?t = of_int (2 ^ nat ?t)" by simp
  also have "\<dots> \<le> of_int ?n" using lo by (simp only: of_int_le_iff)
  also have "\<dots> \<le> x" by simp
  finally have a: "2 powi ?t \<le> x" using t by (simp add: powi_nat)
  from hi have n1: "?n + 1 \<le> 2 ^ nat (?t + 1)" by simp
  have "x < of_int (?n + 1)" by linarith
  also have "(of_int (?n + 1) :: rat) \<le> of_int (2 ^ nat (?t + 1))" using n1 by (simp only: of_int_le_iff)
  finally have "x < 2 ^ nat (?t + 1)" by simp
  then have "x < 2 powi (?t + 1)" using t by (simp add: powi_nat)
  with a fl show ?thesis by simp
next
  case False
  let ?c = "\<lceil>1 / x\<rceil>"
  let ?s = "ndigits 2 (?c - 1)"
  from False assms have "1 < 1 / x" by simp
  then have c: "2 \<le> ?c" by linarith
  then have m: "0 < ?c - 1" by simp
  from ndigits_bounds [OF m] have s: "1 \<le> ?s" and lo: "2 ^ nat (?s - 1) \<le> ?c - 1"
    and hi: "?c - 1 < 2 ^ nat ?s" by simp_all
  have fl: "floor_log 2 x = - ?s" using False by (simp add: floor_log_def)
  from hi have cs: "?c \<le> 2 ^ nat ?s" by simp
  have "1 / x \<le> of_int ?c" by (rule le_of_int_ceiling)
  also have "(of_int ?c :: rat) \<le> of_int (2 ^ nat ?s)" using cs by (simp only: of_int_le_iff)
  finally have "1 / x \<le> 2 ^ nat ?s" by simp
  then have "1 \<le> 2 ^ nat ?s * x" using assms by (simp add: field_simps)
  then have "1 / 2 ^ nat ?s \<le> x" by (simp add: field_simps)
  then have a: "2 powi (- ?s) \<le> x" using s by (simp add: powi_neg)
  have "(of_int (2 ^ nat (?s - 1)) :: rat) \<le> of_int (?c - 1)" using lo by (simp only: of_int_le_iff)
  also have "(of_int (?c - 1) :: rat) < 1 / x" by linarith
  finally have "2 ^ nat (?s - 1) < 1 / x" by simp
  then have "2 ^ nat (?s - 1) * x < 1" using assms by (simp add: field_simps)
  then have "x < 1 / 2 ^ nat (?s - 1)" by (simp add: field_simps)
  moreover have "(2::rat) powi (- ?s + 1) = 1 / 2 ^ nat (?s - 1)"
    using powi_neg [of "?s - 1"] s by simp
  ultimately have "x < 2 powi (- ?s + 1)" by simp
  with a fl show ?thesis by simp
qed

lemma floor_log_unique:
  assumes "0 < x" and "2 powi t \<le> x" and "x < 2 powi (t + 1)"
  shows "floor_log 2 x = t"
proof -
  let ?f = "floor_log 2 x"
  from floor_log_bounds [OF assms(1)] have a: "2 powi ?f \<le> x" and b: "x < 2 powi (?f + 1)"
    by simp_all
  have "(2::rat) powi ?f < 2 powi (t + 1)" using a assms(3) by simp
  then have "?f < t + 1"
    by (metis linorder_not_less power_int_increasing one_le_numeral)
  moreover have "(2::rat) powi t < 2 powi (?f + 1)" using b assms(2) by simp
  then have "t < ?f + 1"
    by (metis linorder_not_less power_int_increasing one_le_numeral)
  ultimately show ?thesis by simp
qed

lemma floor_log_less: "0 < x \<Longrightarrow> x < 2 powi n \<Longrightarrow> floor_log 2 x < n"
proof -
  assume x: "0 < x" and "x < 2 powi n"
  with floor_log_bounds [OF x] have "(2::rat) powi (floor_log 2 x) < 2 powi n" by simp
  then show ?thesis by (metis linorder_not_less power_int_increasing one_le_numeral)
qed

lemma round_half_even_int: "round_half_even (of_int m) = m"
  by (simp add: round_half_even_def)

lemma round_half_even_le: "x \<le> of_int N \<Longrightarrow> round_half_even x \<le> N"
proof -
  assume a: "x \<le> of_int N"
  show ?thesis
  proof (cases "x = of_int N")
    case True
    then show ?thesis by (simp add: round_half_even_int)
  next
    case False
    with a have "x < of_int N" by simp
    then have "\<lfloor>x\<rfloor> < N" by (simp add: floor_less_iff)
    then show ?thesis by (simp add: round_half_even_def Let_def)
  qed
qed

lemma round_half_even_ge: "of_int N \<le> x \<Longrightarrow> N \<le> round_half_even x"
proof -
  assume "of_int N \<le> x"
  then have "N \<le> \<lfloor>x\<rfloor>" by (simp add: le_floor_iff)
  then show ?thesis by (simp add: round_half_even_def Let_def)
qed

lemma powi_pos: "0 < (2::rat) powi e"
  by (simp add: zero_less_power_int)

lemma powi_split: "(2::rat) powi a / 2 powi b = 2 powi (a - b)"
  by (simp add: power_int_diff)

lemma scale_pow2: "(of_int (2 ^ n) :: rat) * 2 powi (e - 52) = 2 powi (e - 52 + int n)"
  by (simp add: power_int_add)

lemma scale_52: "(of_int (2 ^ 52) :: rat) * 2 powi (e - 52) = 2 powi e"
  using scale_pow2 [of 52 e] by simp

lemma scale_53: "(of_int (2 ^ 53) :: rat) * 2 powi (e - 52) = 2 powi (e + 1)"
proof -
  have "e - 52 + int 53 = e + 1" by simp
  with scale_pow2 [of 53 e] show ?thesis by (simp only:)
qed

lemma round_double_eval:
  assumes "0 < r" and "max (floor_log 2 r) (- 1022) = E"
    and "r = of_int M * 2 powi (E - 52)" and "r < 2 powi 1024"
  shows "round_double r = Fin r \<and> round_double (- r) = Fin (- r)"
proof -
  have u: "(2::rat) powi (E - 52) \<noteq> 0" using powi_pos [of "E - 52"] by simp
  have d: "r / 2 powi (E - 52) = of_int M" using assms(3) u by simp
  have a: "\<bar>r\<bar> = r" "\<bar>- r\<bar> = r" using assms(1) by simp_all
  have n: "\<not> 2 powi 1024 \<le> r" "r \<noteq> 0" "\<not> r < 0" "- r < 0" using assms(1,4) by simp_all
  have k: "of_int (round_half_even (r / 2 powi (E - 52))) * 2 powi (E - 52) = r"
    using assms(3) by (simp add: d round_half_even_int)
  show ?thesis
    unfolding round_double_def Let_def a bpow2 assms(2) k
    using n by simp
qed

lemma round_double_fixed:
  assumes "0 < m" and "m \<le> 2 ^ 53" and "- 1022 \<le> e" and "- 1022 < e \<longrightarrow> 2 ^ 52 \<le> m"
    and "r = of_int m * 2 powi (e - 52)" and "r < 2 powi 1024"
  shows "round_double r = Fin r \<and> round_double (- r) = Fin (- r)"
proof -
  have rp: "0 < r" using assms(1,5) powi_pos [of "e - 52"] by simp
  consider "m = 2 ^ 53" | "m < 2 ^ 53" "2 ^ 52 \<le> m" | "m < 2 ^ 52" using assms(2) by linarith
  then show ?thesis
  proof cases
    case 1
    have r: "r = 2 powi (e + 1)" using assms(5) scale_53 [of e] by (simp only: 1)
    have "floor_log 2 r = e + 1"
      by (rule floor_log_unique [OF rp]) (simp_all add: r power_int_strict_increasing)
    with assms(3) have E: "max (floor_log 2 r) (- 1022) = e + 1" by simp
    have "r = of_int (2 ^ 52) * 2 powi (e + 1 - 52)"
      using scale_52 [of "e + 1"] r by (simp only:)
    with round_double_eval [OF rp E _ assms(6)] show ?thesis by blast
  next
    case 2
    have lo: "2 powi e \<le> r"
    proof -
      have "(of_int (2 ^ 52) :: rat) * 2 powi (e - 52) \<le> of_int m * 2 powi (e - 52)"
        using 2(2) powi_pos [of "e - 52"] by (simp only: mult_le_cancel_right_pos of_int_le_iff)
      then show ?thesis using assms(5) by (simp only: scale_52)
    qed
    have hi: "r < 2 powi (e + 1)"
    proof -
      have "of_int m * 2 powi (e - 52) < (of_int (2 ^ 53) :: rat) * 2 powi (e - 52)"
        using 2(1) powi_pos [of "e - 52"] by (simp only: mult_less_cancel_right_pos of_int_less_iff)
      then show ?thesis using assms(5) by (simp only: scale_53)
    qed
    have "floor_log 2 r = e" using rp lo hi by (rule floor_log_unique)
    with assms(3) have E: "max (floor_log 2 r) (- 1022) = e" by simp
    from round_double_eval [OF rp E assms(5) assms(6)] show ?thesis .
  next
    case 3
    with assms(4) assms(3) have e: "e = - 1022" by linarith
    have "of_int m * 2 powi (e - 52) < (of_int (2 ^ 52) :: rat) * 2 powi (e - 52)"
      using 3 powi_pos [of "e - 52"] by (simp only: mult_less_cancel_right_pos of_int_less_iff)
    then have "r < 2 powi e" using assms(5) by (simp only: scale_52)
    with rp have "floor_log 2 r < e" by (rule floor_log_less)
    with e have E: "max (floor_log 2 r) (- 1022) = e" by simp
    from round_double_eval [OF rp E assms(5) assms(6)] show ?thesis .
  qed
qed

lemma mantissa_upper:
  assumes "0 < a" and "floor_log 2 a \<le> e"
  shows "round_half_even (a / 2 powi (e - 52)) \<le> 2 ^ 53"
proof -
  have up: "(0::rat) < 2 powi (e - 52)" by (rule powi_pos)
  from floor_log_bounds [OF assms(1)] have fh: "a < 2 powi (floor_log 2 a + 1)" by (rule conjunct2)
  have "(2::rat) powi (floor_log 2 a + 1) \<le> 2 powi (e + 1)"
    using assms(2) by (intro power_int_increasing) simp_all
  with fh have "a < 2 powi (e + 1)" by (rule less_le_trans)
  then have "a / 2 powi (e - 52) < 2 powi (e + 1) / 2 powi (e - 52)"
    using up by (rule divide_strict_right_mono)
  also have "2 powi (e + 1) / 2 powi (e - 52) = (2::rat) powi 53"
  proof -
    have "e + 1 - (e - 52) = 53" by simp
    with powi_split [of "e + 1" "e - 52"] show ?thesis by (simp only:)
  qed
  also have "(2::rat) powi 53 = of_int (2 ^ 53)" by (simp add: power_int_def)
  finally have "a / 2 powi (e - 52) \<le> of_int (2 ^ 53)" by (rule less_imp_le)
  then show ?thesis by (rule round_half_even_le)
qed

lemma mantissa_lower:
  assumes "0 < a" and "e = floor_log 2 a"
  shows "2 ^ 52 \<le> round_half_even (a / 2 powi (e - 52))"
proof -
  have up: "(0::rat) < 2 powi (e - 52)" by (rule powi_pos)
  from floor_log_bounds [OF assms(1)] have fl: "2 powi e \<le> a"
    unfolding assms(2) by (rule conjunct1)
  have "(of_int (2 ^ 52) :: rat) = 2 powi 52" by (simp add: power_int_def)
  also have "\<dots> = 2 powi e / 2 powi (e - 52)"
  proof -
    have "e - (e - 52) = 52" by simp
    with powi_split [of e "e - 52"] show ?thesis by (simp only:)
  qed
  also have "\<dots> \<le> a / 2 powi (e - 52)"
    using fl less_imp_le [OF up] by (rule divide_right_mono)
  finally show ?thesis by (rule round_half_even_ge)
qed

lemma mantissa_nonneg: "0 \<le> round_half_even (\<bar>q\<bar> / 2 powi e)"
proof -
  have "(0::rat) < 2 powi e" by (rule powi_pos)
  then have "0 \<le> \<bar>q\<bar> / 2 powi e" by simp
  then have "of_int 0 \<le> \<bar>q\<bar> / 2 powi e" by simp
  then show ?thesis by (rule round_half_even_ge)
qed

lemma round_double_double: "is_double (round_double q)"
proof -
  define a where "a = \<bar>q\<bar>"
  define e where "e = max (floor_log 2 a) (- 1022)"
  define m where "m = round_half_even (a / 2 powi (e - 52))"
  define r where "r = of_int m * (2::rat) powi (e - 52)"
  have rd: "round_double q = (if 2 powi 1024 \<le> r then (if q < 0 then NInf else PInf)
        else if r = 0 then (if q < 0 then NegZero else Fin 0)
        else Fin (if q < 0 then - r else r))"
    unfolding r_def m_def e_def a_def by (simp only: round_double_def Let_def bpow2)
  consider (inf) "2 powi 1024 \<le> r" | (zero) "\<not> 2 powi 1024 \<le> r" "r = 0"
    | (fin) "\<not> 2 powi 1024 \<le> r" "r \<noteq> 0" by blast
  then show ?thesis
  proof cases
    case inf
    then have "round_double q = (if q < 0 then NInf else PInf)"
      unfolding rd by (simp only: if_True)
    then show ?thesis by (simp add: is_double_def)
  next
    case zero
    then have "round_double q = (if q < 0 then NegZero else Fin 0)"
      unfolding rd by (simp only: if_True if_False refl)
    then show ?thesis by (simp add: is_double_def)
  next
    case fin
    from fin(1) have small: "r < 2 powi 1024" by (simp only: not_le)
    have "0 \<le> m" unfolding m_def a_def by (rule mantissa_nonneg)
    moreover from fin(2) have "m \<noteq> 0" unfolding r_def by auto
    ultimately have mp: "0 < m" by simp
    have ap: "0 < a"
    proof (rule ccontr)
      assume "\<not> 0 < a"
      then have "a = 0" unfolding a_def by simp
      then have "m = 0" unfolding m_def by (simp add: round_half_even_def)
      with mp show False by simp
    qed
    have "floor_log 2 a \<le> e" unfolding e_def by simp
    with ap have m53: "m \<le> 2 ^ 53" unfolding m_def by (rule mantissa_upper)
    have normal: "- 1022 < e \<longrightarrow> 2 ^ 52 \<le> m"
    proof
      assume "- 1022 < e"
      then have "e = floor_log 2 a" unfolding e_def by simp
      with ap show "2 ^ 52 \<le> m" unfolding m_def by (rule mantissa_lower)
    qed
    have "- 1022 \<le> e" unfolding e_def by simp
    from round_double_fixed [OF mp m53 this normal r_def small]
    have "round_double r = Fin r" and "round_double (- r) = Fin (- r)" by simp_all
    then have "is_double (Fin (if q < 0 then - r else r))"
      by (simp add: is_double_def)
    moreover have "round_double q = Fin (if q < 0 then - r else r)"
      using fin unfolding rd by (simp only: if_False)
    ultimately show ?thesis by (simp only:)
  qed
qed


lemma fadd_double: "is_double x \<Longrightarrow> is_double y \<Longrightarrow> is_double (fadd x y)"
proof (cases x; cases y)
  fix a b assume "x = Fin a" and "y = Fin b"
  then show ?thesis
    using round_double_double [of "a + b"] by (simp add: is_double_def)
qed (simp_all add: is_double_def)

lemma fmul_double: "is_double (fmul x y)"
proof (cases x; cases y)
  fix a b assume "x = Fin a" and "y = Fin b"
  then show ?thesis
    using round_double_double [of "a * b"]
    by (simp add: fmul_def is_zero_def is_inf_def is_neg_def is_double_def)
qed (simp_all add: fmul_def is_zero_def is_inf_def is_neg_def is_double_def)


section \<open>Duplicate fragments\<close>

lemma update_fresh: "map_of d j = None \<Longrightarrow> AList.update j x d = d @ [(j, x)]"
  by (induction d) (auto split: if_splits)

lemma getitem_add_item: "getitem (add_item d j v) j = fadd (getitem d j) v"
  by (simp add: getitem_def add_item_def update_conv')













lemma map_of_add_item_other: "i \<noteq> j \<Longrightarrow> map_of (add_item d j v) i = map_of d i"
  by (simp add: add_item_def update_conv')

lemma activate_active: "current_key s = Some key \<Longrightarrow> activate s key = ([], s)"
  by (simp add: activate_def)














lemma open_flush:
  "fst (activate \<lparr>current_key = Some (0, 0), Avals = [(0, Fin 2)], Bvals = [(0, Fin 3)]\<rparr> (0, 1))
     = [''0 0 6.0'']"
  by (simp add: activate_def all_eval cong: Let_weak_cong)






section \<open>Lines the Grouped Joiner cannot parse\<close>

lemma split_on_not_Nil: "split_on sep s \<noteq> []"
  by (induction s) (auto split: list.splits)

lemma split_max_not_Nil: "split_max sep n s \<noteq> []"
  by (induction sep n s rule: split_max.induct) (auto split: list.splits)

lemma split_max_no_sep: "sep \<notin> set s \<Longrightarrow> split_max sep n s = [s]"
proof (induction sep n s rule: split_max.induct)
  case (3 sep n x xs)
  then show ?case by (auto split: list.splits)
qed simp_all

lemma split_max_first:
  "sep \<in> set s \<Longrightarrow>
   split_max sep (Suc 0) s = [takeWhile (\<lambda>c. c \<noteq> sep) s, tl (dropWhile (\<lambda>c. c \<noteq> sep) s)]"
proof (induction s)
  case Nil
  then show ?case by simp
next
  case (Cons x xs)
  show ?case
  proof (cases "x = sep")
    case True
    then show ?thesis by simp
  next
    case False
    with Cons.prems have "sep \<in> set xs" by simp
    with Cons.IH False show ?thesis by simp
  qed
qed

lemma split_max_short:
  "length (split_on sep s) \<le> Suc n \<Longrightarrow> split_max sep n s = split_on sep s"
proof (induction sep n s rule: split_max.induct)
  case (1 sep s)
  then have "length (split_on sep s) = 1"
    using split_on_not_Nil [of sep s] by (cases "split_on sep s") auto
  then have "sep \<notin> set s"
  proof (induction s)
    case Nil
    then show ?case by simp
  next
    case (Cons x xs)
    then show ?case
      using split_on_not_Nil [of sep xs] by (auto split: if_splits list.splits)
  qed
  then have "split_on sep s = [s]"
    by (induction s) (auto split: list.splits)
  then show ?case by simp
next
  case (2 sep n)
  then show ?case by simp
next
  case (3 sep n x xs)
  show ?case
  proof (cases "x = sep")
    case True
    with "3.prems" have "length (split_on sep xs) \<le> Suc n" by simp
    with True "3.IH"(1) show ?thesis by simp
  next
    case False
    with "3.prems" have "length (split_on sep xs) \<le> Suc (Suc n)"
      using split_on_not_Nil [of sep xs] by (auto split: list.splits)
    with False "3.IH"(2) show ?thesis by simp
  qed
qed

lemma split_max_long:
  "Suc n < length (split_on sep s) \<Longrightarrow>
   length (split_max sep n s) = Suc n \<and> sep \<in> set (last (split_max sep n s))"
proof (induction sep n s rule: split_max.induct)
  case (1 sep s)
  have "sep \<in> set s"
  proof (rule ccontr)
    assume "sep \<notin> set s"
    then have "split_on sep s = [s]" by (induction s) (auto split: list.splits)
    with "1.prems" show False by simp
  qed
  then show ?case by simp
next
  case (2 sep n)
  then show ?case by simp
next
  case (3 sep n x xs)
  show ?case
  proof (cases "x = sep")
    case True
    with "3.prems" have "Suc n < length (split_on sep xs)" by simp
    with True "3.IH"(1) show ?thesis
      using split_max_not_Nil [of sep n xs] by simp
  next
    case False
    with "3.prems" have "Suc (Suc n) < length (split_on sep xs)"
      using split_on_not_Nil [of sep xs] by (auto split: list.splits)
    with False "3.IH"(2) have ih: "length (split_max sep (Suc n) xs) = Suc (Suc n)"
      "sep \<in> set (last (split_max sep (Suc n) xs))" by simp_all
    from ih(1) obtain y ys where yy: "split_max sep (Suc n) xs = y # ys" and l: "length ys = Suc n"
      by (auto simp: length_Suc_conv)
    from l have ys: "ys \<noteq> []" by auto
    with yy ih False show ?thesis by simp
  qed
qed

lemma digitpart_chars: "digitpart t = Some ds \<Longrightarrow> \<forall>c\<in>set t. isdigit c \<or> c = CHR ''_''"
  by (induction t arbitrary: ds rule: digitpart.induct) (auto split: if_splits option.splits)

lemma comma_not_digit: "\<not> isdigit (CHR '','')" "\<not> isspace_num (CHR '','')"
  by (simp_all add: isdigit_def isspace_num_def)

lemma digitpart_comma: "CHR '','' \<in> set t \<Longrightarrow> digitpart t = None"
proof (rule ccontr)
  assume c: "CHR '','' \<in> set t" and "digitpart t \<noteq> None"
  then obtain ds where "digitpart t = Some ds" by auto
  from digitpart_chars [OF this] c comma_not_digit show False by auto
qed

lemma strip_num_keeps: "c \<in> set s \<Longrightarrow> \<not> isspace_num c \<Longrightarrow> c \<in> set (strip_num s)"
proof -
  assume c: "c \<in> set s" and n: "\<not> isspace_num c"
  have a: "\<And>xs. c \<in> set xs \<Longrightarrow> c \<in> set (dropWhile isspace_num xs)"
  proof -
    fix xs assume "c \<in> set xs"
    then show "c \<in> set (dropWhile isspace_num xs)" using n by (induction xs) auto
  qed
  from c have "c \<in> set (dropWhile isspace_num s)" by (rule a)
  then have "c \<in> set (rev (dropWhile isspace_num s))" by simp
  then have "c \<in> set (dropWhile isspace_num (rev (dropWhile isspace_num s)))" by (rule a)
  then show ?thesis by (simp add: strip_num_def)
qed

lemma split_sign_keeps:
  "c \<in> set s \<Longrightarrow> c \<noteq> CHR ''-'' \<Longrightarrow> c \<noteq> CHR ''+'' \<Longrightarrow> c \<in> set (snd (split_sign s))"
  by (cases s) (auto simp: split_sign_def)

lemma lower_comma: "CHR '','' \<in> set s \<Longrightarrow> CHR '','' \<in> set (lower s)"
proof -
  assume "CHR '','' \<in> set s"
  moreover have "lower_char (CHR '','') = CHR '',''" by (simp add: lower_char_def)
  ultimately show ?thesis by (force simp: lower_def)
qed

lemma split_first_keeps:
  assumes "c \<in> set s" and "c \<noteq> sep"
  shows "c \<in> set (fst (split_first sep s))
       \<or> (\<exists>b. snd (split_first sep s) = Some b \<and> c \<in> set b)"
proof (cases "sep \<in> set s")
  case False
  with assms show ?thesis by (simp add: split_first_def split_max_no_sep)
next
  case True
  have "s = takeWhile (\<lambda>c. c \<noteq> sep) s @ dropWhile (\<lambda>c. c \<noteq> sep) s" by simp
  with assms(1) have "c \<in> set (takeWhile (\<lambda>c. c \<noteq> sep) s) \<or> c \<in> set (dropWhile (\<lambda>c. c \<noteq> sep) s)"
    by (metis Un_iff set_append)
  moreover have "dropWhile (\<lambda>c. c \<noteq> sep) s \<noteq> []" using True by simp
  then have "dropWhile (\<lambda>c. c \<noteq> sep) s = sep # tl (dropWhile (\<lambda>c. c \<noteq> sep) s)"
    using hd_dropWhile [of "\<lambda>c. c \<noteq> sep" s] by (cases "dropWhile (\<lambda>c. c \<noteq> sep) s") auto
  ultimately have "c \<in> set (takeWhile (\<lambda>c. c \<noteq> sep) s) \<or> c \<in> set (tl (dropWhile (\<lambda>c. c \<noteq> sep) s))"
    using assms(2) by (metis set_ConsD)
  then show ?thesis using True by (simp add: split_first_def split_max_first)
qed

lemma parse_exponent_comma: "CHR '','' \<in> set e \<Longrightarrow> parse_exponent (Some e) = None"
proof -
  assume "CHR '','' \<in> set e"
  then have "CHR '','' \<in> set (snd (split_sign e))" by (rule split_sign_keeps) simp_all
  then have "digitpart (snd (split_sign e)) = None" by (rule digitpart_comma)
  then show ?thesis by (simp add: parse_exponent_def split_beta)
qed

lemma parse_number_comma:
  assumes "CHR '','' \<in> set s"
  shows "parse_number s = None"
proof -
  obtain mant ex where me: "split_first (CHR ''e'') s = (mant, ex)" by (cases "split_first (CHR ''e'') s")
  obtain ip fp where if': "split_first (CHR ''.'') mant = (ip, fp)" by (cases "split_first (CHR ''.'') mant")
  from split_first_keeps [OF assms, of "CHR ''e''"] me
  consider "CHR '','' \<in> set mant" | e where "ex = Some e" "CHR '','' \<in> set e" by auto
  then show ?thesis
  proof cases
    case 1
    from split_first_keeps [OF 1, of "CHR ''.''"] if'
    consider "CHR '','' \<in> set ip" | f where "fp = Some f" "CHR '','' \<in> set f" by auto
    then show ?thesis
    proof cases
      case 1
      then have "ip \<noteq> []" and "digitpart ip = None" by (auto simp: digitpart_comma)
      then show ?thesis by (simp add: parse_number_def me if')
    next
      case 2
      then have "f \<noteq> []" and "digitpart f = None" by (auto simp: digitpart_comma)
      with 2 show ?thesis by (simp add: parse_number_def me if' split: option.splits)
    qed
  next
    case 2
    then show ?thesis
      by (simp add: parse_number_def me if' parse_exponent_comma split: option.splits)
  qed
qed

lemma py_float_comma: "CHR '','' \<in> set s \<Longrightarrow> py_float s = None"
proof -
  assume "CHR '','' \<in> set s"
  then have "CHR '','' \<in> set (strip_num s)" by (rule strip_num_keeps) (rule comma_not_digit)
  then have "CHR '','' \<in> set (lower (strip_num s))" by (rule lower_comma)
  then have c: "CHR '','' \<in> set (snd (split_sign (lower (strip_num s))))"
    by (rule split_sign_keeps) simp_all
  then have "parse_number (snd (split_sign (lower (strip_num s)))) = None" by (rule parse_number_comma)
  moreover from c have "snd (split_sign (lower (strip_num s))) \<noteq> ''inf''"
    "snd (split_sign (lower (strip_num s))) \<noteq> ''infinity''" "snd (split_sign (lower (strip_num s))) \<noteq> ''nan''"
    by auto
  ultimately show ?thesis by (simp add: py_float_def split_beta)
qed

lemma key_not_ok:
  "\<not> key_ok key_str \<Longrightarrow>
   (case map py_int (split_on (CHR '','') key_str) of
      [Some i, Some k] \<Rightarrow> f i k
    | _ \<Rightarrow> Inl ValueError) = Inl ValueError"
  by (auto simp: key_ok_def split: list.splits option.splits)

lemma payload_bad:
  assumes "length (split_on (CHR '','') payload) \<noteq> 3
         \<or> py_int (split_on (CHR '','') payload ! 1) = None
         \<or> py_float (split_on (CHR '','') payload ! 2) = None"
  shows "(case split_max (CHR '','') (Suc (Suc 0)) payload of
            [src, j_str, v_str] \<Rightarrow>
              (case py_int j_str of None \<Rightarrow> Inl ValueError | Some j \<Rightarrow>
              (case py_float v_str of None \<Rightarrow> Inl ValueError | Some v \<Rightarrow> Inr (g src j v)))
          | _ \<Rightarrow> Inl ValueError) = Inl ValueError"
proof -
  let ?fs = "split_on (CHR '','') payload" and ?ms = "split_max (CHR '','') (Suc (Suc 0)) payload"
  consider "length ?fs < 3" | "3 < length ?fs" | "length ?fs = 3" by linarith
  then show ?thesis
  proof cases
    case 1
    then have "?ms = ?fs" by (intro split_max_short) simp
    with 1 show ?thesis by (auto split: list.splits)
  next
    case 2
    then have "length ?ms = 3 \<and> CHR '','' \<in> set (last ?ms)"
      using split_max_long [of "Suc (Suc 0)" "CHR '',''" payload] by simp
    then obtain a b c where m: "?ms = [a, b, c]" and "CHR '','' \<in> set c"
      by (auto simp: length_Suc_conv eval_nat_numeral)
    then have "py_float c = None" by (simp add: py_float_comma)
    with m show ?thesis by (simp split: option.splits)
  next
    case 3
    then have m: "?ms = ?fs" by (intro split_max_short) simp
    from 3 obtain a b c where f: "?fs = [a, b, c]"
      by (auto simp: length_Suc_conv eval_nat_numeral)
    with assms have "py_int b = None \<or> py_float c = None" by simp
    with m f show ?thesis by (auto split: option.splits)
  qed
qed

lemma malformed_parse:
  assumes "strip raw \<noteq> []" and "malformed raw"
  shows "parse_line raw = Inl ValueError"
proof (cases "CHR 0x09 \<in> set (strip raw)")
  case False
  then have "split_max (CHR 0x09) (Suc 0) (strip raw) = [strip raw]" by (rule split_max_no_sep)
  with assms(1) show ?thesis by (simp add: parse_line_def)
next
  case True
  let ?key = "key_part (strip raw)" and ?payload = "payload_part (strip raw)"
  have s: "split_max (CHR 0x09) (Suc 0) (strip raw) = [?key, ?payload]"
    using True by (simp add: split_max_first key_part_def payload_part_def)
  from assms(2) True consider "\<not> key_ok ?key"
    | "length (split_on (CHR '','') ?payload) \<noteq> 3
         \<or> py_int (split_on (CHR '','') ?payload ! 1) = None
         \<or> py_float (split_on (CHR '','') ?payload ! 2) = None"
    by (auto simp: malformed_def Let_def)
  then show ?thesis
  proof cases
    case 1
    then show ?thesis using assms(1) by (simp add: parse_line_def Let_def s key_not_ok)
  next
    case 2
    show ?thesis
      using assms(1)
      by (simp add: parse_line_def Let_def s payload_bad [OF 2] split: list.splits option.splits)
  qed
qed

lemma wellformed_parse:
  assumes "strip raw \<noteq> []" and "\<not> malformed raw"
  shows "\<exists>p. parse_line raw = Inr (Some p)"
proof -
  let ?line = "strip raw"
  let ?key = "key_part ?line" and ?payload = "payload_part ?line"
  let ?fs = "split_on (CHR '','') ?payload"
  from assms(2) have tab: "CHR 0x09 \<in> set ?line" and len: "length ?fs = 3"
    and key: "key_ok ?key" and j: "py_int (?fs ! 1) \<noteq> None" and v: "py_float (?fs ! 2) \<noteq> None"
    by (simp_all add: malformed_def Let_def)
  have s: "split_max (CHR 0x09) (Suc 0) ?line = [?key, ?payload]"
    using tab by (simp add: split_max_first key_part_def payload_part_def)
  from key obtain i k where ik: "map py_int (split_on (CHR '','') ?key) = [Some i, Some k]"
    by (auto simp: key_ok_def split: list.splits option.splits)
  from len have m: "split_max (CHR '','') (Suc (Suc 0)) ?payload = ?fs"
    by (intro split_max_short) simp
  from len obtain a b c where f: "?fs = [a, b, c]"
    by (auto simp: length_Suc_conv eval_nat_numeral)
  with j v obtain jj vv where "py_int b = Some jj" and "py_float c = Some vv" by auto
  with assms(1) s ik m f show ?thesis
    by (simp add: parse_line_def Let_def)
qed

text \<open>
  The malformed lines are exactly the lines that are not blank and on which the parse
  raises: every other line that is not blank gives a key and a fragment.
\<close>

lemma malformed_exact:
  assumes "strip raw \<noteq> []"
  shows "malformed raw \<longleftrightarrow> parse_line raw = Inl ValueError"
proof
  assume "malformed raw"
  with assms show "parse_line raw = Inl ValueError" by (rule malformed_parse)
next
  assume e: "parse_line raw = Inl ValueError"
  show "malformed raw"
  proof (rule ccontr)
    assume "\<not> malformed raw"
    with assms have "\<exists>p. parse_line raw = Inr (Some p)" by (rule wellformed_parse)
    with e show False by simp
  qed
qed

text \<open>
  A field that holds one of the separators 28 to 31 next to its digits is not an integer:
  \<open>str.strip()\<close> would drop the separator, \<open>int\<close> does not.
\<close>

lemma separator_example:
  "malformed (''0,0'' @ [CHR 0x09] @ ''A,'' @ [CHR 0x1C] @ ''1,1.0'')"
  "parse_line (''0,0'' @ [CHR 0x09] @ ''A,'' @ [CHR 0x1C] @ ''1,1.0'') = Inl ValueError"
  by (simp_all add: malformed_def key_part_def payload_part_def key_ok_def parse_line_def str_eval
      cong: Let_weak_cong)

lemma reducer_loop_dies:
  "parse_line raw = Inl e \<Longrightarrow> snd (reducer_loop s (pre @ raw # post)) = Inl ValueError"
proof (induction pre arbitrary: s)
  case Nil
  then show ?case by (cases e) simp
next
  case (Cons l ls)
  show ?case
  proof (cases "parse_line l")
    case (Inl e')
    then show ?thesis by (cases e') simp
  next
    case (Inr q)
    with Cons show ?thesis by (cases q) (simp_all add: split_beta)
  qed
qed

lemma reducer_loop_first_error:
  "\<forall>l\<in>set pre. parse_line l \<noteq> Inl ValueError \<Longrightarrow> parse_line raw = Inl e \<Longrightarrow>
   reducer_loop s (pre @ raw # post) = (fst (reducer_loop s pre), Inl e)"
proof (induction pre arbitrary: s)
  case Nil
  then show ?case by simp
next
  case (Cons l ls)
  from Cons.prems have ok: "parse_line l \<noteq> Inl ValueError" by simp
  show ?case
  proof (cases "parse_line l")
    case (Inl e')
    with ok show ?thesis by (cases e') simp
  next
    case (Inr q)
    with Cons show ?thesis by (cases q) (simp_all add: split_beta)
  qed
qed

lemma printed_before:
  "\<forall>l\<in>set pre. parse_line l \<noteq> Inl ValueError \<Longrightarrow>
   fst (reducer_loop init pre) = concat (map group_flush (butlast (runs (parsed pre))))"
proof -
  assume a: "\<forall>l\<in>set pre. parse_line l \<noteq> Inl ValueError"
  show ?thesis
  proof (cases "parsed pre = []")
    case True
    with a show ?thesis by (simp add: reducer_loop_parsed)
  next
    case False
    with a show ?thesis by (simp add: reducer_loop_parsed pairs_loop_init)
  qed
qed

text \<open>
  Claim C6, as amended. A line of the Grouped Joiner's input that is not blank and is
  malformed (no tab in it, a payload that is not three comma-separated fields, a key that
  is not two integers, an inner index that is not an integer or a value that is not a
  float) raises: the run ends there with the error, whatever follows is not read, and
  when the lines before it all parse, the output is what the flushes of the earlier
  complete groups printed, the group that was active being lost.
\<close>

theorem malformed_line_fatal:
  assumes "\<not> list_all isspace raw" and "malformed raw"
  shows "parse_line raw = Inl ValueError
       \<and> snd (reducer (pre @ raw # post)) = Some ValueError
       \<and> ((\<forall>l\<in>set pre. parse_line l \<noteq> Inl ValueError) \<longrightarrow>
            reducer (pre @ raw # post)
            = (concat (map group_flush (butlast (runs (parsed pre)))), Some ValueError))"
proof -
  from assms(1) have "strip raw \<noteq> []" by (simp add: strip_empty_iff)
  then have p: "parse_line raw = Inl ValueError" using assms(2) by (rule malformed_parse)
  have "snd (reducer (pre @ raw # post)) = Some ValueError"
    using reducer_loop_dies [OF p, of init pre post]
    by (cases "reducer_loop init (pre @ raw # post)") (simp add: reducer_def)
  moreover have "reducer (pre @ raw # post)
            = (concat (map group_flush (butlast (runs (parsed pre)))), Some ValueError)"
    if "\<forall>l\<in>set pre. parse_line l \<noteq> Inl ValueError"
    using reducer_loop_first_error [OF that p, of init post] printed_before [OF that]
    by (simp add: reducer_def)
  ultimately show ?thesis using p by blast
qed

lemma ex_printed_before:
  "concat (map group_flush (butlast (runs (parsed ex_lines)))) = [''0 0 6.0'']"
  unfolding ex_parsed
  by (simp add: group_flush_def final_flush_def run_state_def acc_frags_def all_eval
      cong: Let_weak_cong)

lemma no_tab_example:
  "\<not> list_all isspace ''0,0 A,0,1'' \<and> malformed ''0,0 A,0,1''"
  by (simp add: malformed_def str_eval)

theorem malformed_line_fatal_witness:
  "\<not> list_all isspace ''0,0 A,0,1'' \<and> malformed ''0,0 A,0,1''
   \<and> list_all (\<lambda>l. parse_line l \<noteq> Inl ValueError) ex_lines
   \<and> parse_line ''0,0 A,0,1'' = Inl ValueError
   \<and> reducer (ex_lines @ ''0,0 A,0,1'' # [frag_line ''A,0,1'']) = ([''0 0 6.0''], Some ValueError)"
proof -
  have a: "\<not> list_all isspace ''0,0 A,0,1''" and b: "malformed ''0,0 A,0,1''"
    using no_tab_example by simp_all
  have c: "\<forall>l\<in>set ex_lines. parse_line l \<noteq> Inl ValueError"
    by (simp add: ex_lines_def ex_parse del: append.simps)
  from malformed_line_fatal [OF a b, of ex_lines "[frag_line ''A,0,1'']"] a b c
  show ?thesis
    by (simp add: ex_printed_before list_all_iff)
qed

text \<open>
  The claim as stated fails on a blank line: it has no tab, and the run skips it and
  ends without an error.
\<close>

theorem blank_line_counterexample:
  "CHR 0x09 \<notin> set [CHR 0x0A] \<and> malformed [CHR 0x0A] \<and> reducer [[CHR 0x0A]] = ([], None)"
  by (simp add: malformed_def all_eval)

section \<open>Lines the Key Expander skips\<close>

lemma mapper_skip:
  "mapper_line MAX_I MAX_K raw = Inr [] \<Longrightarrow>
   mapper MAX_I MAX_K (pre @ raw # post) = mapper MAX_I MAX_K (pre @ post)"
  by (induction pre) (auto split: sum.splits prod.splits)

lemma mapper_line_skippable:
  assumes "list_all isspace raw
         \<or> (strip raw \<noteq> [] \<and> hd (strip raw) = CHR ''#'')
         \<or> length (split_on (CHR '','') (strip raw)) \<noteq> 4"
  shows "mapper_line MAX_I MAX_K raw = Inr []"
proof -
  from assms consider "strip raw = []" | "hd (strip raw) = CHR ''#''"
    | "length (split_on (CHR '','') (strip raw)) \<noteq> 4"
    by (auto simp: strip_empty_iff)
  then show ?thesis
  proof cases
    case 3
    then have "\<And>f. (case split_on (CHR '','') (strip raw) of
                 [name, r_str, c_str, v_str] \<Rightarrow> f name r_str c_str v_str
               | _ \<Rightarrow> Inr []) = (Inr [] :: error + string list)"
      by (auto split: list.splits)
    then show ?thesis by (simp add: mapper_line_def Let_def)
  qed (simp_all add: mapper_line_def)
qed

lemma mapper_line_other_name:
  assumes "split_on (CHR '','') (strip raw) = [name, r_str, c_str, v_str]"
    and "py_int r_str \<noteq> None" and "py_int c_str \<noteq> None" and "py_float v_str \<noteq> None"
    and "upper name \<noteq> ''A''" and "upper name \<noteq> ''B''"
  shows "mapper_line MAX_I MAX_K raw = Inr []"
  using assms by (auto simp: mapper_line_def Let_def)

text \<open>
  Claim C7, as amended. A line of the Key Expander's input that is blank, starts with
  \<open>#\<close>, or does not split into exactly four comma-separated fields writes nothing, and
  the run goes on as if the line were not there. The same holds for a line of four
  fields whose row and column are integers, whose value is a float, and whose name is
  neither \<open>A\<close> nor \<open>B\<close> in either letter case.
\<close>

theorem skipped_lines:
  "(list_all isspace raw
      \<or> (strip raw \<noteq> [] \<and> hd (strip raw) = CHR ''#'')
      \<or> length (split_on (CHR '','') (strip raw)) \<noteq> 4
    \<longrightarrow> mapper_line MAX_I MAX_K raw = Inr []
        \<and> mapper MAX_I MAX_K (pre @ raw # post) = mapper MAX_I MAX_K (pre @ post))
   \<and> (split_on (CHR '','') (strip raw) = [name, r_str, c_str, v_str]
      \<and> py_int r_str \<noteq> None \<and> py_int c_str \<noteq> None \<and> py_float v_str \<noteq> None
      \<and> upper name \<noteq> ''A'' \<and> upper name \<noteq> ''B''
    \<longrightarrow> mapper_line MAX_I MAX_K raw = Inr []
        \<and> mapper MAX_I MAX_K (pre @ raw # post) = mapper MAX_I MAX_K (pre @ post))"
  using mapper_line_skippable [of raw MAX_I MAX_K]
    mapper_line_other_name [of raw name r_str c_str v_str MAX_I MAX_K]
    mapper_skip [of MAX_I MAX_K raw pre post]
  by blast

lemma skip_examples:
  "strip ''# rows of A'' \<noteq> [] \<and> hd (strip ''# rows of A'') = CHR ''#''"
  "split_on (CHR '','') (strip ''C,1,2,3'') = [''C'', ''1'', ''2'', ''3'']"
  "py_int ''1'' \<noteq> None \<and> py_int ''2'' \<noteq> None \<and> py_float ''3'' \<noteq> None"
  "upper ''C'' \<noteq> ''A'' \<and> upper ''C'' \<noteq> ''B''"
  by (simp_all add: all_eval cong: Let_weak_cong)

lemma mapper_one_entry:
  "mapper 1 1 [''A,0,0,1''] = ([''0,0'' @ [CHR 0x09] @ ''A,0,1.0''], None)"
  by (simp add: all_eval upto.simps cong: Let_weak_cong)

theorem skipped_lines_witness:
  "strip ''# rows of A'' \<noteq> [] \<and> hd (strip ''# rows of A'') = CHR ''#''
   \<and> mapper_line 1 1 ''# rows of A'' = Inr []
   \<and> mapper 1 1 ([] @ ''# rows of A'' # [''A,0,0,1'']) = ([''0,0'' @ [CHR 0x09] @ ''A,0,1.0''], None)
   \<and> split_on (CHR '','') (strip ''C,1,2,3'') = [''C'', ''1'', ''2'', ''3'']
   \<and> py_int ''1'' \<noteq> None \<and> py_int ''2'' \<noteq> None \<and> py_float ''3'' \<noteq> None
   \<and> upper ''C'' \<noteq> ''A'' \<and> upper ''C'' \<noteq> ''B''
   \<and> mapper_line 1 1 ''C,1,2,3'' = Inr []
   \<and> mapper 1 1 ([] @ ''C,1,2,3'' # [''A,0,0,1'']) = ([''0,0'' @ [CHR 0x09] @ ''A,0,1.0''], None)"
  using skipped_lines [where raw = "''# rows of A''" and MAX_I = 1 and MAX_K = 1
      and pre = "[]" and post = "[''A,0,0,1'']"]
    skipped_lines [where raw = "''C,1,2,3''" and name = "''C''" and r_str = "''1''"
      and c_str = "''2''" and v_str = "''3''" and MAX_I = 1 and MAX_K = 1
      and pre = "[]" and post = "[''A,0,0,1'']"]
    skip_examples mapper_one_entry
  by simp

text \<open>
  The claim as stated fails on a line of four fields whose name is neither \<open>A\<close> nor \<open>B\<close>
  and whose row is not an integer: the conversions of line 17 come before the test of
  the name, so the line is not dropped and the run ends with the error.
\<close>

theorem other_name_counterexample:
  "split_on (CHR '','') (strip ''C,x,0,1'') = [''C'', ''x'', ''0'', ''1'']
   \<and> upper ''C'' \<noteq> ''A'' \<and> upper ''C'' \<noteq> ''B''
   \<and> mapper_line 2 2 ''C,x,0,1'' = Inl ValueError
   \<and> mapper 2 2 [''C,x,0,1'', ''A,0,0,1''] = ([], Some ValueError)"
  by (simp add: all_eval cong: Let_weak_cong)

section \<open>The end-to-end example\<close>

lemma example_mapper: "mapper 2 2 matrix_entries = (expanded, None)"
  by (simp add: matrix_entries_def expanded_def pair_line_def all_eval upto.simps
      cong: Let_weak_cong)

lemma example_shuffle: "shuffle expanded = grouped"
  by (simp add: shuffle_def expanded_def grouped_def pair_line_def key_part_def)

lemma example_reducer:
  "reducer grouped = ([''0 0 19.0'', ''0 1 22.0'', ''1 0 43.0'', ''1 1 50.0''], None)"
  by (simp add: grouped_def pair_line_def all_eval cong: Let_weak_cong)

lemma example_pipeline:
  "reducer (shuffle (fst (mapper 2 2 matrix_entries)))
   = ([''0 0 19.0'', ''0 1 22.0'', ''1 0 43.0'', ''1 1 50.0''], None)"
  by (simp add: example_mapper example_shuffle example_reducer)

text \<open>
  Claim C4, as amended. For the entries \<open>A,0,0,1\<close> \<open>A,0,1,2\<close> \<open>A,1,0,3\<close> \<open>A,1,1,4\<close>
  \<open>B,0,0,5\<close> \<open>B,0,1,6\<close> \<open>B,1,0,7\<close> \<open>B,1,1,8\<close> with \<open>MAX_I = 2\<close> and \<open>MAX_K = 2\<close>,
  running the Key Expander, grouping its output by key and running the Grouped Joiner
  prints exactly the lines \<open>0 0 19.0\<close>, \<open>0 1 22.0\<close>, \<open>1 0 43.0\<close> and \<open>1 1 50.0\<close>, in
  the order of the keys, and ends without an error: the total is a float, and an
  f-string prints a float with its fractional part.
\<close>

theorem end_to_end_example:
  "mapper 2 2 matrix_entries = (expanded, None)
   \<and> shuffle expanded = grouped
   \<and> reducer grouped = ([''0 0 19.0'', ''0 1 22.0'', ''1 0 43.0'', ''1 1 50.0''], None)
   \<and> reducer (shuffle (fst (mapper 2 2 matrix_entries)))
       = ([''0 0 19.0'', ''0 1 22.0'', ''1 0 43.0'', ''1 1 50.0''], None)"
  by (simp add: example_mapper example_shuffle example_reducer)

text \<open>The claim as stated gives the totals without the fractional part.\<close>

theorem end_to_end_counterexample:
  "reducer (shuffle (fst (mapper 2 2 matrix_entries)))
   \<noteq> ([''0 0 19'', ''0 1 22'', ''1 0 43'', ''1 1 50''], None)"
  by (simp add: example_pipeline)

end
